theory Spec2Isabelle
  imports Main
begin


section \<open>The TSV data store of gbdt: schema resolution and the load pipeline\<close>

text \<open>
  This theory embeds \<^verbatim>\<open>src/data_store/tsv_data_store.cc\<close>:
  \<^verbatim>\<open>SetupColumns\<close> (schema resolution), and the pipeline of \<^verbatim>\<open>LoadTSVs\<close>,
  \<^verbatim>\<open>LoadBlock\<close>, \<^verbatim>\<open>ProcessBlock\<close> and \<^verbatim>\<open>Finalize\<close>.
  Sequential code is a function on an explicit state; the thread pools are a step
  function driven by a schedule, so that a statement about every schedule is a statement
  about every interleaving of the worker threads with the controlling thread.
\<close>

subsection \<open>Errors\<close>

text \<open>
  Every \<^verbatim>\<open>CHECK\<close> of the source aborts the process. The three checks of the file
  are \<^verbatim>\<open>"Failed to find <header> in header file."\<close>, \<^verbatim>\<open>"TSV <tsv> does not exist."\<close>
  and the death of \<^verbatim>\<open>ReadFileToStringOrDie\<close>; a block that cannot be parsed is the
  fourth way to die.
\<close>

datatype cause =
    Failed_to_find string
  | TSV_does_not_exist string
  | Header_file_unreadable string

datatype error =
    Configuration_error cause
  | Parse_error string
  | Invariant_violation

subsection \<open>Text utilities\<close>

definition TAB :: char where
  "TAB = CHR 0x09"

definition NL :: char where
  "NL = CHR 0x0A"

text \<open>
  Modelled from the spec: \<^verbatim>\<open>strings::split\<close> of \<^verbatim>\<open>src/utils/utils.h\<close> is not
  among the sources. The header is "tab-delimited column names": the text is cut at every
  delimiter, and \<open>n\<close> delimiters give \<open>n + 1\<close> pieces.
\<close>

fun split :: "char \<Rightarrow> string \<Rightarrow> string list" where
  "split d [] = [[]]"
| "split d (c # cs) =
     (if c = d then [] # split d cs
      else (case split d cs of
              [] \<Rightarrow> [[c]]
            | w # ws \<Rightarrow> (c # w) # ws))"

definition is_space :: "char \<Rightarrow> bool" where
  "is_space c = (c \<in> set [CHR '' '', CHR 0x09, CHR 0x0A, CHR 0x0B, CHR 0x0C, CHR 0x0D])"

text \<open>
  Modelled from the spec: \<^verbatim>\<open>TrimWhiteSpace\<close> of \<^verbatim>\<open>src/utils/utils.h\<close> is not
  among the sources. Names are "whitespace-trimmed": leading and trailing white space
  is removed.
\<close>

definition TrimWhiteSpace :: "string \<Rightarrow> string" where
  "TrimWhiteSpace s = rev (dropWhile is_space (rev (dropWhile is_space s)))"

subsection \<open>The data store\<close>

datatype kind = BinnedFloatColumn | RawFloatColumn | StringColumn

text \<open>
  A column object as \<^verbatim>\<open>new BinnedFloatColumn(header)\<close> creates it: its class and
  its name. What it accumulates is read off the calls made on it (see \<open>float_rows\<close>).
\<close>

record column =
  col_kind :: kind
  col_name :: string

text \<open>
  A reference is the address of an object. \<open>objects\<close> holds the objects that are alive:
  \<^verbatim>\<open>column_map_\<close> maps a name to a \<^verbatim>\<open>unique_ptr\<close>, so \<^verbatim>\<open>reset\<close> destroys
  the object the entry owned before. The three column lists hold raw pointers
  (\<^verbatim>\<open>column_map_[header].get()\<close>) paired with the slot of the column in a block; a
  pointer to a destroyed object stays in its list. \<open>next_ref\<close> and \<open>free_refs\<close> are the
  state of the allocator: the addresses never used, and the addresses of destroyed objects,
  which \<^verbatim>\<open>new\<close> may hand out again. The members are written without the trailing
  underscore of the source.
\<close>

type_synonym ref = nat

record TSVDataStore =
  objects :: "ref \<rightharpoonup> column"
  next_ref :: ref
  free_refs :: "ref list"
  column_map :: "string \<rightharpoonup> ref"
  binned_float_columns :: "(ref \<times> nat) list"
  raw_float_columns :: "(ref \<times> nat) list"
  string_columns :: "(ref \<times> nat) list"
  float_column_indices :: "nat list"
  string_column_indices :: "nat list"

text \<open>The object under construction: every member empty. \<open>n\<close> is the allocator's state.\<close>

definition new_TSVDataStore :: "ref \<Rightarrow> TSVDataStore" where
  "new_TSVDataStore n =
     \<lparr>objects = Map.empty, next_ref = n, free_refs = [], column_map = Map.empty,
      binned_float_columns = [], raw_float_columns = [], string_columns = [],
      float_column_indices = [], string_column_indices = []\<rparr>"

record TSVDataConfig =
  binned_float_column :: "string list"
  raw_float_column :: "string list"
  string_column :: "string list"

subsection \<open>SetupColumns\<close>

text \<open>
  \<^verbatim>\<open>for (i = 0; i < headers.size(); ++i) { TrimWhiteSpace(&headers[i]);
  map_from_header_to_index[headers[i]] = i; }\<close>
  Indices are \<^verbatim>\<open>int\<close> in the source; a header of \<open>2^31\<close> columns or more is
  outside the model.
\<close>

fun index_headers :: "string list \<Rightarrow> nat \<Rightarrow> (string \<rightharpoonup> nat) \<Rightarrow> (string \<rightharpoonup> nat)" where
  "index_headers [] i m = m"
| "index_headers (h # hs) i m = index_headers hs (Suc i) (m(TrimWhiteSpace h \<mapsto> i))"

text \<open>
  \<^verbatim>\<open>new C(header)\<close> and \<^verbatim>\<open>delete\<close>. The allocator of the C++ runtime is free to
  give a new object the address of a destroyed one; here it reuses the address freed last,
  and takes a fresh address when none is free. No result below depends on this choice:
  where no name is configured twice nothing is destroyed, and the evaluation for C6 ends
  before a freed address is handed out.
\<close>

definition new_column :: "column \<Rightarrow> TSVDataStore \<Rightarrow> ref \<times> TSVDataStore" where
  "new_column c s =
     (case free_refs s of
        [] \<Rightarrow> (next_ref s, s\<lparr>objects := (objects s)(next_ref s \<mapsto> c),
                               next_ref := Suc (next_ref s)\<rparr>)
      | p # ps \<Rightarrow> (p, s\<lparr>objects := (objects s)(p \<mapsto> c), free_refs := ps\<rparr>))"

definition delete_column :: "ref \<Rightarrow> TSVDataStore \<Rightarrow> TSVDataStore" where
  "delete_column p s = s\<lparr>objects := (objects s)(p := None), free_refs := p # free_refs s\<rparr>"

text \<open>
  \<^verbatim>\<open>column_map_[header].reset(new C(header))\<close>: the new object is created first, then
  the entry takes it and the object the entry owned, if any, is destroyed.
\<close>

definition reset_column :: "kind \<Rightarrow> string \<Rightarrow> TSVDataStore \<Rightarrow> ref \<times> TSVDataStore" where
  "reset_column k header s =
     (let (p, s1) = new_column \<lparr>col_kind = k, col_name = header\<rparr> s;
          s2 = (case column_map s header of
                  None \<Rightarrow> s1
                | Some old \<Rightarrow> delete_column old s1)
      in (p, s2\<lparr>column_map := (column_map s)(header \<mapsto> p)\<rparr>))"

text \<open>The bodies of the three loops over the configuration.\<close>

definition add_binned_float ::
  "(string \<rightharpoonup> nat) \<Rightarrow> string \<Rightarrow> TSVDataStore \<Rightarrow> error + TSVDataStore" where
  "add_binned_float m header s =
     (case m header of
        None \<Rightarrow> Inl (Configuration_error (Failed_to_find header))
      | Some idx \<Rightarrow>
          (let (p, s1) = reset_column BinnedFloatColumn header s;
               s2 = s1\<lparr>binned_float_columns :=
                         binned_float_columns s1 @ [(p, length (float_column_indices s1))]\<rparr>
           in Inr (s2\<lparr>float_column_indices := float_column_indices s2 @ [idx]\<rparr>)))"

definition add_raw_float ::
  "(string \<rightharpoonup> nat) \<Rightarrow> string \<Rightarrow> TSVDataStore \<Rightarrow> error + TSVDataStore" where
  "add_raw_float m header s =
     (case m header of
        None \<Rightarrow> Inl (Configuration_error (Failed_to_find header))
      | Some idx \<Rightarrow>
          (let (p, s1) = reset_column RawFloatColumn header s;
               s2 = s1\<lparr>raw_float_columns :=
                         raw_float_columns s1 @ [(p, length (float_column_indices s1))]\<rparr>
           in Inr (s2\<lparr>float_column_indices := float_column_indices s2 @ [idx]\<rparr>)))"

definition add_string ::
  "(string \<rightharpoonup> nat) \<Rightarrow> string \<Rightarrow> TSVDataStore \<Rightarrow> error + TSVDataStore" where
  "add_string m header s =
     (case m header of
        None \<Rightarrow> Inl (Configuration_error (Failed_to_find header))
      | Some idx \<Rightarrow>
          (let (p, s1) = reset_column StringColumn header s;
               s2 = s1\<lparr>string_columns :=
                         string_columns s1 @ [(p, length (string_column_indices s1))]\<rparr>
           in Inr (s2\<lparr>string_column_indices := string_column_indices s2 @ [idx]\<rparr>)))"

text \<open>A range-for whose body may abort: the first failure ends the loop.\<close>

fun for_each :: "('a \<Rightarrow> 's \<Rightarrow> error + 's) \<Rightarrow> 'a list \<Rightarrow> 's \<Rightarrow> error + 's" where
  "for_each body [] s = Inr s"
| "for_each body (x # xs) s =
     (case body x s of
        Inl e \<Rightarrow> Inl e
      | Inr s' \<Rightarrow> for_each body xs s')"

text \<open>
  The file system is a map from paths to contents. \<^verbatim>\<open>ReadFileToStringOrDie\<close> dies on a
  file that is not there.
\<close>

type_synonym files = "string \<rightharpoonup> string"

definition headers_of :: "string \<Rightarrow> string list" where
  "headers_of contents = map TrimWhiteSpace (split TAB contents)"

definition SetupColumns ::
  "files \<Rightarrow> string \<Rightarrow> TSVDataConfig \<Rightarrow> TSVDataStore \<Rightarrow> error + TSVDataStore" where
  "SetupColumns fs header_file config s =
     (case fs header_file of
        None \<Rightarrow> Inl (Configuration_error (Header_file_unreadable header_file))
      | Some contents \<Rightarrow>
          (let m = index_headers (split TAB contents) 0 Map.empty in
           case for_each (add_binned_float m) (binned_float_column config) s of
             Inl e \<Rightarrow> Inl e
           | Inr s1 \<Rightarrow>
               (case for_each (add_raw_float m) (raw_float_column config) s1 of
                  Inl e \<Rightarrow> Inl e
                | Inr s2 \<Rightarrow> for_each (add_string m) (string_column config) s2)))"

subsection \<open>Blocks, tasks and events\<close>

text \<open>
  A block holds one file's rows by column: a float column for every entry of
  \<open>float_column_indices\<close> and a string column for every entry of
  \<open>string_column_indices\<close>. The type \<open>'f\<close> stands for \<^verbatim>\<open>float\<close>; nothing here
  computes with it. The fields are the accessors \<^verbatim>\<open>float_columns()\<close> and
  \<^verbatim>\<open>string_columns()\<close>, prefixed because the store has a member of the second name.
\<close>

record 'f TSVBlock =
  block_float_columns :: "'f list list"
  block_string_columns :: "string list list"

datatype 'f slice = Floats "'f list" | Strings "string list"

text \<open>
  The units of work handed to a thread pool: \<^verbatim>\<open>LoadBlock(tsv, &blocks[i])\<close>,
  \<^verbatim>\<open>C::Add(p, &column)\<close> and \<^verbatim>\<open>C::Finalize(p)\<close> for a column class \<open>C\<close>.
\<close>

datatype 'f task =
    LoadBlock string nat
  | Add kind ref "'f slice"
  | Finalize kind ref

datatype 'f event =
    FileExists_called nat
  | Enqueued "'f task"
  | Started "'f task"
  | Finished "'f task"
  | Block_taken nat

text \<open>
  The world outside the store: the files, and the constructor of \<^verbatim>\<open>TSVBlock\<close>
  (\<^verbatim>\<open>tsv_block.h\<close> is not among the sources), which parses one file for the two
  index lists and may die.
\<close>

record 'f world =
  fs :: files
  new_TSVBlock :: "string \<Rightarrow> nat list \<Rightarrow> nat list \<Rightarrow> error + 'f TSVBlock"

definition FileExists :: "'f world \<Rightarrow> string \<Rightarrow> bool" where
  "FileExists w path = (fs w path \<noteq> None)"

subsection \<open>ProcessBlock and Finalize: the tasks they enqueue\<close>

text \<open>
  \<^verbatim>\<open>&block->float_columns()[p.second]\<close>: indexing a vector beyond its size is
  undefined in the source. Modelled from the spec: a block whose slot count differs from
  the schema's is a fatal internal invariant violation.
\<close>

definition float_slice :: "'f TSVBlock \<Rightarrow> nat \<Rightarrow> error + 'f slice" where
  "float_slice b k =
     (if k < length (block_float_columns b) then Inr (Floats (block_float_columns b ! k))
      else Inl Invariant_violation)"

definition string_slice :: "'f TSVBlock \<Rightarrow> nat \<Rightarrow> error + 'f slice" where
  "string_slice b k =
     (if k < length (block_string_columns b) then Inr (Strings (block_string_columns b ! k))
      else Inl Invariant_violation)"

fun add_tasks ::
  "kind \<Rightarrow> (nat \<Rightarrow> error + 'f slice) \<Rightarrow> (ref \<times> nat) list \<Rightarrow> error + 'f task list" where
  "add_tasks k sl [] = Inr []"
| "add_tasks k sl ((p, i) # ps) =
     (case sl i of
        Inl e \<Rightarrow> Inl e
      | Inr x \<Rightarrow>
          (case add_tasks k sl ps of
             Inl e \<Rightarrow> Inl e
           | Inr ts \<Rightarrow> Inr (Add k p x # ts)))"

text \<open>
  The three loops of \<^verbatim>\<open>ProcessBlock\<close>, in the order of the source. A task carries
  the pointer its list entry holds. Where a name is configured twice that pointer may be
  to a destroyed object, or to the object another entry points to as well; a call through
  it is undefined in the source, and the tasks below record it like any other call. The
  results on the calls are therefore stated for configurations without a repeated name,
  where every entry points to a living object of its own.
\<close>

definition ProcessBlock_tasks :: "TSVDataStore \<Rightarrow> 'f TSVBlock \<Rightarrow> error + 'f task list" where
  "ProcessBlock_tasks st b =
     (case add_tasks BinnedFloatColumn (float_slice b) (binned_float_columns st) of
        Inl e \<Rightarrow> Inl e
      | Inr ts1 \<Rightarrow>
          (case add_tasks RawFloatColumn (float_slice b) (raw_float_columns st) of
             Inl e \<Rightarrow> Inl e
           | Inr ts2 \<Rightarrow>
               (case add_tasks StringColumn (string_slice b) (string_columns st) of
                  Inl e \<Rightarrow> Inl e
                | Inr ts3 \<Rightarrow> Inr (ts1 @ ts2 @ ts3))))"

text \<open>The three loops of \<^verbatim>\<open>Finalize\<close>: binned, then string, then raw columns.\<close>

definition Finalize_tasks :: "TSVDataStore \<Rightarrow> 'f task list" where
  "Finalize_tasks st =
     map (\<lambda>(p, i). Finalize BinnedFloatColumn p) (binned_float_columns st) @
     map (\<lambda>(p, i). Finalize StringColumn p) (string_columns st) @
     map (\<lambda>(p, i). Finalize RawFloatColumn p) (raw_float_columns st)"

subsection \<open>LoadTSVs as a machine\<close>

text \<open>
  Where the controlling thread stands in \<^verbatim>\<open>LoadTSVs\<close>: in the first loop at file
  \<open>i\<close>; in the second loop waiting for \<^verbatim>\<open>blocks[i]\<close>; inside
  \<^verbatim>\<open>ProcessBlock\<close> for block \<open>i\<close>, where the pool of that call is being joined; inside
  \<^verbatim>\<open>Finalize\<close>; returned; or dead after a failed check.
\<close>

datatype pc =
    Submitting nat
  | Draining nat
  | Folding nat
  | Finalizing
  | Returned
  | Aborted error

text \<open>
  \<open>load_queue\<close> and \<open>load_running\<close> are the pool of \<^verbatim>\<open>LoadTSVs\<close>, \<open>pool_queue\<close>
  and \<open>pool_running\<close> the pool local to the running call of \<^verbatim>\<open>ProcessBlock\<close> or
  \<^verbatim>\<open>Finalize\<close>: tasks enqueued and not started, and tasks started and not finished.
  \<open>trace\<close> records what has happened, oldest first.
\<close>

record 'f load_state =
  this :: TSVDataStore
  pc :: pc
  blocks :: "'f TSVBlock option list"
  load_queue :: "'f task list"
  load_running :: "'f task list"
  pool_queue :: "'f task list"
  pool_running :: "'f task list"
  trace :: "'f event list"

text \<open>
  One step of the controlling thread. \<open>None\<close> means that it cannot move: it waits on
  \<^verbatim>\<open>cv_\<close> for \<^verbatim>\<open>blocks[i]\<close>, or in the destructor of a pool for its tasks.
  Modelled from the spec: \<^verbatim>\<open>ThreadPool\<close> of \<^verbatim>\<open>src/utils/threadpool.h\<close> is not
  among the sources; the executor offers submit and join, and leaving the scope of a pool
  joins all the work submitted to it. The tasks of one loop are enqueued in one step.
\<close>

definition main_step :: "'f world \<Rightarrow> string list \<Rightarrow> 'f load_state \<Rightarrow> 'f load_state option" where
  "main_step w tsvs s =
     (case pc s of
        Submitting i \<Rightarrow>
          (if i < length tsvs then
             (if FileExists w (tsvs ! i)
              then Some (s\<lparr>pc := Submitting (Suc i),
                           load_queue := load_queue s @ [LoadBlock (tsvs ! i) i],
                           trace := trace s @
                             [FileExists_called i, Enqueued (LoadBlock (tsvs ! i) i)]\<rparr>)
              else Some (s\<lparr>pc := Aborted (Configuration_error (TSV_does_not_exist (tsvs ! i))),
                           trace := trace s @ [FileExists_called i]\<rparr>))
           else Some (s\<lparr>pc := Draining 0\<rparr>))
      | Draining i \<Rightarrow>
          (if i < length (blocks s) then
             (case blocks s ! i of
                None \<Rightarrow> None
              | Some b \<Rightarrow>
                  (case ProcessBlock_tasks (this s) b of
                     Inl e \<Rightarrow>
                       Some (s\<lparr>pc := Aborted e, blocks := (blocks s)[i := None],
                               trace := trace s @ [Block_taken i]\<rparr>)
                   | Inr ts \<Rightarrow>
                       Some (s\<lparr>pc := Folding i, blocks := (blocks s)[i := None],
                               pool_queue := ts,
                               trace := trace s @ Block_taken i # map Enqueued ts\<rparr>)))
           else Some (s\<lparr>pc := Finalizing,
                        pool_queue := Finalize_tasks (this s),
                        trace := trace s @ map Enqueued (Finalize_tasks (this s))\<rparr>))
      | Folding i \<Rightarrow>
          (if pool_queue s = [] \<and> pool_running s = [] then Some (s\<lparr>pc := Draining (Suc i)\<rparr>)
           else None)
      | Finalizing \<Rightarrow>
          (if pool_queue s = [] \<and> pool_running s = [] \<and>
              load_queue s = [] \<and> load_running s = []
           then Some (s\<lparr>pc := Returned\<rparr>)
           else None)
      | Returned \<Rightarrow> None
      | Aborted e \<Rightarrow> None)"

text \<open>
  What a task does when it runs to its end. \<^verbatim>\<open>LoadBlock\<close> builds the block and
  installs it in its slot under the mutex; the calls on columns change no state of
  \<^verbatim>\<open>LoadTSVs\<close>.
\<close>

fun finish :: "'f world \<Rightarrow> 'f task \<Rightarrow> 'f load_state \<Rightarrow> 'f load_state" where
  "finish w (LoadBlock tsv i) s =
     (case new_TSVBlock w tsv (float_column_indices (this s)) (string_column_indices (this s)) of
        Inl e \<Rightarrow> s\<lparr>pc := Aborted e\<rparr>
      | Inr b \<Rightarrow> s\<lparr>blocks := (blocks s)[i := Some b],
                   trace := trace s @ [Finished (LoadBlock tsv i)]\<rparr>)"
| "finish w (Add k p x) s = s\<lparr>trace := trace s @ [Finished (Add k p x)]\<rparr>"
| "finish w (Finalize k p) s = s\<lparr>trace := trace s @ [Finished (Finalize k p)]\<rparr>"

text \<open>
  What the scheduler may choose: the controlling thread, or a worker of either pool that
  starts a waiting task or ends a running one. Any waiting task may start and any number
  may run at once, which covers a pool of any size and any order of completion.
\<close>

datatype 'f action =
    Main
  | Start_load "'f task"
  | End_load "'f task"
  | Start_task "'f task"
  | End_task "'f task"

definition is_dead :: "pc \<Rightarrow> bool" where
  "is_dead c = (case c of Aborted e \<Rightarrow> True | _ \<Rightarrow> False)"

definition step ::
  "'f world \<Rightarrow> string list \<Rightarrow> 'f action \<Rightarrow> 'f load_state \<Rightarrow> 'f load_state option" where
  "step w tsvs a s =
     (if is_dead (pc s) then None
      else case a of
        Main \<Rightarrow> main_step w tsvs s
      | Start_load t \<Rightarrow>
          (if t \<in> set (load_queue s)
           then Some (s\<lparr>load_queue := remove1 t (load_queue s),
                        load_running := load_running s @ [t],
                        trace := trace s @ [Started t]\<rparr>)
           else None)
      | End_load t \<Rightarrow>
          (if t \<in> set (load_running s)
           then Some (finish w t (s\<lparr>load_running := remove1 t (load_running s)\<rparr>))
           else None)
      | Start_task t \<Rightarrow>
          (if t \<in> set (pool_queue s)
           then Some (s\<lparr>pool_queue := remove1 t (pool_queue s),
                        pool_running := pool_running s @ [t],
                        trace := trace s @ [Started t]\<rparr>)
           else None)
      | End_task t \<Rightarrow>
          (if t \<in> set (pool_running s)
           then Some (finish w t (s\<lparr>pool_running := remove1 t (pool_running s)\<rparr>))
           else None))"

text \<open>Running a schedule; \<open>None\<close> when the schedule asks for a step that cannot be taken.\<close>

fun run ::
  "'f world \<Rightarrow> string list \<Rightarrow> 'f action list \<Rightarrow> 'f load_state \<Rightarrow> 'f load_state option" where
  "run w tsvs [] s = Some s"
| "run w tsvs (a # as) s =
     (case step w tsvs a s of
        None \<Rightarrow> None
      | Some s' \<Rightarrow> run w tsvs as s')"

text \<open>
  \<^verbatim>\<open>LoadTSVs\<close> up to the return of \<^verbatim>\<open>SetupColumns\<close>, on the object under
  construction: no file of \<open>tsvs\<close> has been touched and no pool exists yet.
\<close>

definition LoadTSVs ::
  "'f world \<Rightarrow> string \<Rightarrow> string list \<Rightarrow> TSVDataConfig \<Rightarrow> ref \<Rightarrow> 'f load_state" where
  "LoadTSVs w header_file tsvs config n =
     (case SetupColumns (fs w) header_file config (new_TSVDataStore n) of
        Inl e \<Rightarrow>
          \<lparr>this = new_TSVDataStore n, pc = Aborted e, blocks = [],
           load_queue = [], load_running = [], pool_queue = [], pool_running = [],
           trace = []\<rparr>
      | Inr st \<Rightarrow>
          \<lparr>this = st, pc = Submitting 0, blocks = replicate (length tsvs) None,
           load_queue = [], load_running = [], pool_queue = [], pool_running = [],
           trace = []\<rparr>)"

subsection \<open>What a trace says about a column\<close>

text \<open>
  The calls made on the column object \<open>p\<close>, read off a trace: the slices of the
  \<^verbatim>\<open>Add\<close> calls that have started, those of the calls that have returned, and the
  number of \<^verbatim>\<open>Finalize\<close> calls that have started and returned.
\<close>

fun Add_slice :: "ref \<Rightarrow> 'f task \<Rightarrow> 'f slice list" where
  "Add_slice p (Add k q x) = (if q = p then [x] else [])"
| "Add_slice p (LoadBlock tsv i) = []"
| "Add_slice p (Finalize k q) = []"

fun Finalize_call :: "ref \<Rightarrow> 'f task \<Rightarrow> nat" where
  "Finalize_call p (Finalize k q) = (if q = p then 1 else 0)"
| "Finalize_call p (LoadBlock tsv i) = 0"
| "Finalize_call p (Add k q x) = 0"

fun started :: "'f event \<Rightarrow> 'f task list" where
  "started (Started t) = [t]"
| "started (Finished t) = []"
| "started (Enqueued t) = []"
| "started (FileExists_called i) = []"
| "started (Block_taken i) = []"

fun finished :: "'f event \<Rightarrow> 'f task list" where
  "finished (Finished t) = [t]"
| "finished (Started t) = []"
| "finished (Enqueued t) = []"
| "finished (FileExists_called i) = []"
| "finished (Block_taken i) = []"

definition Add_started :: "ref \<Rightarrow> 'f event list \<Rightarrow> 'f slice list" where
  "Add_started p tr = concat (map (Add_slice p) (concat (map started tr)))"

definition Add_finished :: "ref \<Rightarrow> 'f event list \<Rightarrow> 'f slice list" where
  "Add_finished p tr = concat (map (Add_slice p) (concat (map finished tr)))"

definition Finalize_started :: "ref \<Rightarrow> 'f event list \<Rightarrow> nat" where
  "Finalize_started p tr = sum_list (map (Finalize_call p) (concat (map started tr)))"

definition Finalize_finished :: "ref \<Rightarrow> 'f event list \<Rightarrow> nat" where
  "Finalize_finished p tr = sum_list (map (Finalize_call p) (concat (map finished tr)))"

text \<open>
  Modelled from the spec: the column classes of \<^verbatim>\<open>column.h\<close> are not among the
  sources. \<open>accept\<close> "appends the given per-row values": the rows of a column are the
  slices of its completed \<^verbatim>\<open>Add\<close> calls, one after the other.
\<close>

fun floats_of :: "'f slice \<Rightarrow> 'f list" where
  "floats_of (Floats xs) = xs"
| "floats_of (Strings ys) = []"

fun strings_of :: "'f slice \<Rightarrow> string list" where
  "strings_of (Strings ys) = ys"
| "strings_of (Floats xs) = []"

definition float_rows :: "ref \<Rightarrow> 'f event list \<Rightarrow> 'f list" where
  "float_rows p tr = concat (map floats_of (Add_finished p tr))"

definition string_rows :: "ref \<Rightarrow> 'f event list \<Rightarrow> string list" where
  "string_rows p tr = concat (map strings_of (Add_finished p tr))"

text \<open>The blocks the controlling thread took, in the order it took them.\<close>

fun taken :: "'f event \<Rightarrow> nat list" where
  "taken (Block_taken i) = [i]"
| "taken (FileExists_called i) = []"
| "taken (Enqueued t) = []"
| "taken (Started t) = []"
| "taken (Finished t) = []"

definition blocks_taken :: "'f event list \<Rightarrow> nat list" where
  "blocks_taken tr = concat (map taken tr)"

text \<open>The files the controlling thread has probed with \<^verbatim>\<open>FileExists\<close>, in order.\<close>

fun checked :: "'f event \<Rightarrow> nat list" where
  "checked (FileExists_called i) = [i]"
| "checked (Enqueued t) = []"
| "checked (Started t) = []"
| "checked (Finished t) = []"
| "checked (Block_taken i) = []"

definition files_checked :: "'f event list \<Rightarrow> nat list" where
  "files_checked tr = concat (map checked tr)"

text \<open>The slots of the parse tasks, in the order the tasks were submitted, and in the
  order they completed.\<close>

fun load_slot :: "'f task \<Rightarrow> nat list" where
  "load_slot (LoadBlock tsv i) = [i]"
| "load_slot (Add k p x) = []"
| "load_slot (Finalize k p) = []"

fun enqueued :: "'f event \<Rightarrow> 'f task list" where
  "enqueued (Enqueued t) = [t]"
| "enqueued (Started t) = []"
| "enqueued (Finished t) = []"
| "enqueued (FileExists_called i) = []"
| "enqueued (Block_taken i) = []"

definition loads_submitted :: "'f event list \<Rightarrow> nat list" where
  "loads_submitted tr = concat (map load_slot (concat (map enqueued tr)))"

definition loads_completed :: "'f event list \<Rightarrow> nat list" where
  "loads_completed tr = concat (map load_slot (concat (map finished tr)))"

text \<open>
  An event of an \<^verbatim>\<open>Add\<close> call (it starts or returns) and an event of a
  \<^verbatim>\<open>Finalize\<close> task (it is submitted, starts or returns). A trace keeps the two
  phases apart when no event of an \<^verbatim>\<open>Add\<close> call follows an event of a
  \<^verbatim>\<open>Finalize\<close> task.
\<close>

fun is_Add :: "'f task \<Rightarrow> bool" where
  "is_Add (Add k p x) = True"
| "is_Add (LoadBlock tsv i) = False"
| "is_Add (Finalize k p) = False"

fun is_Finalize :: "'f task \<Rightarrow> bool" where
  "is_Finalize (Finalize k p) = True"
| "is_Finalize (LoadBlock tsv i) = False"
| "is_Finalize (Add k p x) = False"

fun Add_event :: "'f event \<Rightarrow> bool" where
  "Add_event (Started t) = is_Add t"
| "Add_event (Finished t) = is_Add t"
| "Add_event (Enqueued t) = False"
| "Add_event (FileExists_called i) = False"
| "Add_event (Block_taken i) = False"

fun Finalize_event :: "'f event \<Rightarrow> bool" where
  "Finalize_event (Enqueued t) = is_Finalize t"
| "Finalize_event (Started t) = is_Finalize t"
| "Finalize_event (Finished t) = is_Finalize t"
| "Finalize_event (FileExists_called i) = False"
| "Finalize_event (Block_taken i) = False"

definition no_Add_after_Finalize :: "'f event list \<Rightarrow> bool" where
  "no_Add_after_Finalize tr =
     list_all (\<lambda>e. \<not> Add_event e) (dropWhile (\<lambda>e. \<not> Finalize_event e) tr)"

text \<open>The column objects the store's three lists point to.\<close>

definition columns_of :: "TSVDataStore \<Rightarrow> ref list" where
  "columns_of st =
     map fst (binned_float_columns st) @ map fst (raw_float_columns st) @
     map fst (string_columns st)"

subsection \<open>A parser of blocks\<close>

text \<open>
  Modelled from the spec: the constructor of \<^verbatim>\<open>TSVBlock\<close> (\<^verbatim>\<open>tsv_block.h\<close>) is
  not among the sources. The parser is "purely a function of one file and the resolved
  slot layout"; it yields one entry per row in every column, in the order of the layout
  handed in, and a row that lacks a requested position is a parse error. Rows are the
  non-empty lines of the file and cells are separated by tabs; \<open>to_float\<close> reads a
  numeric cell.
\<close>

definition parse_TSVBlock ::
  "(string \<Rightarrow> 'f) \<Rightarrow> files \<Rightarrow> string \<Rightarrow> nat list \<Rightarrow> nat list \<Rightarrow> error + 'f TSVBlock" where
  "parse_TSVBlock to_float files tsv float_indices string_indices =
     (case files tsv of
        None \<Rightarrow> Inl (Parse_error tsv)
      | Some contents \<Rightarrow>
          (let rows = map (split TAB) (filter (\<lambda>line. line \<noteq> []) (split NL contents)) in
           if list_all (\<lambda>row. list_all (\<lambda>i. i < length row) (float_indices @ string_indices))
                rows
           then Inr \<lparr>block_float_columns =
                       map (\<lambda>i. map (\<lambda>row. to_float (row ! i)) rows) float_indices,
                     block_string_columns =
                       map (\<lambda>i. map (\<lambda>row. row ! i) rows) string_indices\<rparr>
           else Inl (Parse_error tsv)))"

definition tsv_world :: "(string \<Rightarrow> 'f) \<Rightarrow> files \<Rightarrow> 'f world" where
  "tsv_world to_float files = \<lparr>fs = files, new_TSVBlock = parse_TSVBlock to_float files\<rparr>"

subsection \<open>Notions used to state the results\<close>

text \<open>The names a configuration asks for, in the order \<^verbatim>\<open>SetupColumns\<close> visits them.\<close>

definition configured :: "TSVDataConfig \<Rightarrow> string list" where
  "configured config = binned_float_column config @ raw_float_column config @ string_column config"

text \<open>The slot layout of a store: the two index lists and the slots of the three column lists.\<close>

definition slot_layout :: "TSVDataStore \<Rightarrow> nat list \<times> nat list \<times> nat list \<times> nat list \<times> nat list" where
  "slot_layout st =
     (float_column_indices st, string_column_indices st,
      map snd (binned_float_columns st), map snd (raw_float_columns st),
      map snd (string_columns st))"

text \<open>The column a task works on.\<close>

fun task_column :: "'f task \<Rightarrow> ref option" where
  "task_column (Add k p x) = Some p"
| "task_column (Finalize k p) = Some p"
| "task_column (LoadBlock tsv i) = None"

text \<open>
  The tasks \<^verbatim>\<open>ProcessBlock\<close> enqueues for the block of one file, or none when the
  file does not parse or its block does not fit the store; \<open>folds\<close> says that it does.
\<close>

definition tasks_of :: "'f world \<Rightarrow> TSVDataStore \<Rightarrow> string \<Rightarrow> 'f task list" where
  "tasks_of w st tsv =
     (case new_TSVBlock w tsv (float_column_indices st) (string_column_indices st) of
        Inl e \<Rightarrow> []
      | Inr b \<Rightarrow> (case ProcessBlock_tasks st b of Inl e \<Rightarrow> [] | Inr ts \<Rightarrow> ts))"

definition folds :: "'f world \<Rightarrow> TSVDataStore \<Rightarrow> string \<Rightarrow> bool" where
  "folds w st tsv =
     (case new_TSVBlock w tsv (float_column_indices st) (string_column_indices st) of
        Inl e \<Rightarrow> False
      | Inr b \<Rightarrow> (case ProcessBlock_tasks st b of Inl e \<Rightarrow> False | Inr ts \<Rightarrow> True))"

text \<open>The slices column \<open>p\<close> is to receive from the given files, in their order.\<close>

definition Add_expected :: "'f world \<Rightarrow> TSVDataStore \<Rightarrow> string list \<Rightarrow> ref \<Rightarrow> 'f slice list" where
  "Add_expected w st tsvs p = concat (map (\<lambda>tsv. concat (map (Add_slice p) (tasks_of w st tsv))) tsvs)"

text \<open>
  The rows of one file in float slot \<open>k\<close> and in string slot \<open>k\<close>, as its block
  holds them; none when the file does not parse.
\<close>

definition floats_in_file :: "'f world \<Rightarrow> TSVDataStore \<Rightarrow> string \<Rightarrow> nat \<Rightarrow> 'f list" where
  "floats_in_file w st tsv k =
     (case new_TSVBlock w tsv (float_column_indices st) (string_column_indices st) of
        Inl e \<Rightarrow> []
      | Inr b \<Rightarrow> (if k < length (block_float_columns b) then block_float_columns b ! k else []))"

definition strings_in_file :: "'f world \<Rightarrow> TSVDataStore \<Rightarrow> string \<Rightarrow> nat \<Rightarrow> string list" where
  "strings_in_file w st tsv k =
     (case new_TSVBlock w tsv (float_column_indices st) (string_column_indices st) of
        Inl e \<Rightarrow> []
      | Inr b \<Rightarrow> (if k < length (block_string_columns b) then block_string_columns b ! k else []))"

subsection \<open>Invariants of the machine\<close>

text \<open>
  How many files have been folded completely at a given place of the controlling thread,
  and the tasks handed to the pool that is alive there.
\<close>

fun files_folded :: "nat \<Rightarrow> pc \<Rightarrow> nat" where
  "files_folded n (Submitting i) = 0"
| "files_folded n (Draining i) = i"
| "files_folded n (Folding i) = i"
| "files_folded n Finalizing = n"
| "files_folded n Returned = n"
| "files_folded n (Aborted e) = 0"

fun current_tasks :: "'f world \<Rightarrow> string list \<Rightarrow> TSVDataStore \<Rightarrow> pc \<Rightarrow> 'f task list" where
  "current_tasks w tsvs st (Submitting i) = []"
| "current_tasks w tsvs st (Draining i) = []"
| "current_tasks w tsvs st (Folding i) = tasks_of w st (tsvs ! i)"
| "current_tasks w tsvs st Finalizing = Finalize_tasks st"
| "current_tasks w tsvs st Returned = Finalize_tasks st"
| "current_tasks w tsvs st (Aborted e) = []"

fun pc_ok :: "nat \<Rightarrow> pc \<Rightarrow> bool" where
  "pc_ok n (Submitting i) = (i \<le> n)"
| "pc_ok n (Draining i) = (i \<le> n)"
| "pc_ok n (Folding i) = (i < n)"
| "pc_ok n Finalizing = True"
| "pc_ok n Returned = True"
| "pc_ok n (Aborted e) = True"

text \<open>
  The store does not change, every installed block is the block of its file, and the pool
  of \<^verbatim>\<open>LoadTSVs\<close> holds parse tasks only.
\<close>

definition inv_static :: "'f world \<Rightarrow> string list \<Rightarrow> TSVDataStore \<Rightarrow> 'f load_state \<Rightarrow> bool" where
  "inv_static w tsvs st s \<longleftrightarrow>
     this s = st \<and> length (blocks s) = length tsvs \<and>
     (\<forall>i b. i < length tsvs \<longrightarrow> blocks s ! i = Some b \<longrightarrow>
        new_TSVBlock w (tsvs ! i) (float_column_indices st) (string_column_indices st) = Inr b) \<and>
     (\<forall>t\<in>set (load_queue s) \<union> set (load_running s). \<exists>i<length tsvs. t = LoadBlock (tsvs ! i) i)"

text \<open>The local pool holds, without repetition, tasks of the loop that filled it.\<close>

definition inv_pool :: "'f world \<Rightarrow> string list \<Rightarrow> TSVDataStore \<Rightarrow> 'f load_state \<Rightarrow> bool" where
  "inv_pool w tsvs st s \<longleftrightarrow>
     (\<not> is_dead (pc s) \<longrightarrow>
      distinct (pool_queue s @ pool_running s) \<and>
      set (pool_queue s @ pool_running s) \<subseteq> set (current_tasks w tsvs st (pc s)) \<and>
      (\<forall>j<files_folded (length tsvs) (pc s). folds w st (tsvs ! j)) \<and>
      (\<forall>i. pc s = Folding i \<longrightarrow> folds w st (tsvs ! i)) \<and>
      (pc s = Returned \<longrightarrow> pool_queue s = [] \<and> pool_running s = []) \<and>
      pc_ok (length tsvs) (pc s))"

text \<open>
  The calls made so far on every column: all the calls for the files folded completely,
  and, of the tasks of the pool alive now, those that have left the queue (started) and
  those that have left the pool (returned).
\<close>

definition inv_calls :: "'f world \<Rightarrow> string list \<Rightarrow> TSVDataStore \<Rightarrow> 'f load_state \<Rightarrow> bool" where
  "inv_calls w tsvs st s \<longleftrightarrow>
     (\<not> is_dead (pc s) \<longrightarrow>
      (\<forall>p. Add_started p (trace s) =
             Add_expected w st (take (files_folded (length tsvs) (pc s)) tsvs) p @
             (if Some p \<in> task_column ` set (pool_queue s) then []
              else concat (map (Add_slice p) (current_tasks w tsvs st (pc s)))) \<and>
           Add_finished p (trace s) =
             Add_expected w st (take (files_folded (length tsvs) (pc s)) tsvs) p @
             (if Some p \<in> task_column ` set (pool_queue s @ pool_running s) then []
              else concat (map (Add_slice p) (current_tasks w tsvs st (pc s)))) \<and>
           Finalize_started p (trace s) =
             (if Some p \<in> task_column ` set (pool_queue s) then 0
              else sum_list (map (Finalize_call p) (current_tasks w tsvs st (pc s)))) \<and>
           Finalize_finished p (trace s) =
             (if Some p \<in> task_column ` set (pool_queue s @ pool_running s) then 0
              else sum_list (map (Finalize_call p) (current_tasks w tsvs st (pc s))))))"

(* observables: simp rules *)

definition inv :: "'f world \<Rightarrow> string list \<Rightarrow> TSVDataStore \<Rightarrow> 'f load_state \<Rightarrow> bool" where
  "inv w tsvs st s \<longleftrightarrow> inv_static w tsvs st s \<and> inv_pool w tsvs st s \<and> inv_calls w tsvs st s"

text \<open>
  Every \<^verbatim>\<open>Add\<close> call that started before the first event of a
  \<^verbatim>\<open>Finalize\<close> task had returned before it.
\<close>

fun before_Finalize :: "pc \<Rightarrow> bool" where
  "before_Finalize (Submitting i) = True"
| "before_Finalize (Draining i) = True"
| "before_Finalize (Folding i) = True"
| "before_Finalize Finalizing = False"
| "before_Finalize Returned = False"
| "before_Finalize (Aborted e) = False"

definition Adds_returned_before_Finalize :: "ref \<Rightarrow> 'f event list \<Rightarrow> bool" where
  "Adds_returned_before_Finalize p tr =
     (Add_started p (takeWhile (\<lambda>e. \<not> Finalize_event e) tr) =
      Add_finished p (takeWhile (\<lambda>e. \<not> Finalize_event e) tr))"

definition inv_order :: "'f load_state \<Rightarrow> bool" where
  "inv_order s \<longleftrightarrow>
     no_Add_after_Finalize (trace s) \<and>
     (before_Finalize (pc s) \<longrightarrow> list_all (\<lambda>e. \<not> Finalize_event e) (trace s)) \<and>
     (pc s = Finalizing \<or> pc s = Returned \<longrightarrow>
        (\<forall>p. Adds_returned_before_Finalize p (trace s)))"

text \<open>The blocks taken so far are the first \<open>k\<close> files, in their order.\<close>

fun taken_count :: "nat \<Rightarrow> pc \<Rightarrow> nat option" where
  "taken_count n (Submitting i) = Some 0"
| "taken_count n (Draining i) = Some i"
| "taken_count n (Folding i) = Some (Suc i)"
| "taken_count n Finalizing = Some n"
| "taken_count n Returned = Some n"
| "taken_count n (Aborted e) = None"

definition inv_taken :: "string list \<Rightarrow> 'f load_state \<Rightarrow> bool" where
  "inv_taken tsvs s \<longleftrightarrow>
     (\<exists>k. blocks_taken (trace s) = [0 ..< k] \<and>
          (taken_count (length tsvs) (pc s) = None \<or> taken_count (length tsvs) (pc s) = Some k))"

text \<open>The parse tasks submitted so far are those of the first \<open>j\<close> files, in their order.\<close>

definition inv_submitted :: "string list \<Rightarrow> 'f load_state \<Rightarrow> bool" where
  "inv_submitted tsvs s \<longleftrightarrow>
     (\<exists>j\<le>length tsvs. loads_submitted (trace s) = [0 ..< j] \<and>
        (\<forall>i. pc s = Submitting i \<longrightarrow> j = i))"

definition Inv :: "'f world \<Rightarrow> string list \<Rightarrow> TSVDataStore \<Rightarrow> 'f load_state \<Rightarrow> bool" where
  "Inv w tsvs st s \<longleftrightarrow>
     inv w tsvs st s \<and> inv_order s \<and> inv_taken tsvs s \<and> inv_submitted tsvs s"

text \<open>
  When file \<open>k\<close> is the first that is missing: the controlling thread is in its first
  loop at a file up to \<open>k\<close>, or it has died at file \<open>k\<close> of the missing file with the
  parse tasks of all earlier files submitted, or the parse task of an earlier file has
  died. Only parse tasks of earlier files are in the pool, no block has been taken and no
  call on a column has started.
\<close>

definition inv_missing ::
  "'f world \<Rightarrow> string list \<Rightarrow> TSVDataStore \<Rightarrow> nat \<Rightarrow> 'f load_state \<Rightarrow> bool" where
  "inv_missing w tsvs st k s \<longleftrightarrow>
     inv_static w tsvs st s \<and> pool_queue s = [] \<and> pool_running s = [] \<and>
     blocks_taken (trace s) = [] \<and>
     (\<forall>p. Add_started p (trace s) = [] \<and> Finalize_started p (trace s) = 0) \<and>
     (\<forall>t\<in>set (load_queue s @ load_running s). \<exists>i<k. t = LoadBlock (tsvs ! i) i) \<and>
     ((\<exists>j\<le>k. pc s = Submitting j \<and> loads_submitted (trace s) = [0 ..< j] \<and>
          files_checked (trace s) = [0 ..< j]) \<or>
      (pc s = Aborted (Configuration_error (TSV_does_not_exist (tsvs ! k))) \<and>
       loads_submitted (trace s) = [0 ..< k] \<and> files_checked (trace s) = [0 ..< Suc k]) \<or>
      (\<exists>i<k. \<exists>e.
          new_TSVBlock w (tsvs ! i) (float_column_indices st) (string_column_indices st) = Inl e \<and>
          pc s = Aborted e \<and>
          (\<exists>j\<le>k. loads_submitted (trace s) = [0 ..< j] \<and> files_checked (trace s) = [0 ..< j])))"

text \<open>
  The steps still to come when file \<open>k\<close> is missing: three for every file before \<open>k\<close> not
  yet submitted (the submission, and the start and the end of its parse task), one for
  the failing check, two for a parse task in the queue and one for a running one.
\<close>

definition missing_steps_left :: "nat \<Rightarrow> 'f load_state \<Rightarrow> nat" where
  "missing_steps_left k s =
     (case pc s of
        Submitting j \<Rightarrow> 3 * (k - j) + 1 + 2 * length (load_queue s) + length (load_running s)
      | _ \<Rightarrow> 0)"

text \<open>
  Where the parse tasks are. The task of file \<open>i\<close> is in the pool of \<^verbatim>\<open>LoadTSVs\<close> or
  its block waits in slot \<open>i\<close>, and not both, exactly when the task has been submitted and
  the block has not been taken; the pool holds no task twice.
\<close>

fun submitted_files :: "nat \<Rightarrow> pc \<Rightarrow> nat" where
  "submitted_files n (Submitting i) = i"
| "submitted_files n (Draining i) = n"
| "submitted_files n (Folding i) = n"
| "submitted_files n Finalizing = n"
| "submitted_files n Returned = n"
| "submitted_files n (Aborted e) = n"

fun taken_files :: "nat \<Rightarrow> pc \<Rightarrow> nat" where
  "taken_files n (Submitting i) = 0"
| "taken_files n (Draining i) = i"
| "taken_files n (Folding i) = Suc i"
| "taken_files n Finalizing = n"
| "taken_files n Returned = n"
| "taken_files n (Aborted e) = n"

definition inv_loads :: "string list \<Rightarrow> 'f load_state \<Rightarrow> bool" where
  "inv_loads tsvs s \<longleftrightarrow>
     (\<not> is_dead (pc s) \<longrightarrow>
      distinct (load_queue s @ load_running s) \<and>
      (\<forall>i<length tsvs.
         (LoadBlock (tsvs ! i) i \<in> set (load_queue s @ load_running s) \<longleftrightarrow>
            i < submitted_files (length tsvs) (pc s) \<and>
            taken_files (length tsvs) (pc s) \<le> i \<and> blocks s ! i = None) \<and>
         (blocks s ! i = None \<or>
            i < submitted_files (length tsvs) (pc s) \<and>
            taken_files (length tsvs) (pc s) \<le> i)))"

text \<open>
  A bound on the steps still to come, for \<open>n\<close> files and \<open>m\<close> columns. A task in a queue
  has two steps before it (its start and its end), a running task one. The controlling
  thread has before it, per file, one step that submits the parse task, one that takes the
  block and fills the local pool with \<open>m\<close> tasks, and one that leaves
  \<^verbatim>\<open>ProcessBlock\<close>; besides, the step from the first loop to the second, the step
  into \<^verbatim>\<open>Finalize\<close> with its \<open>m\<close> tasks, and the return.
\<close>

fun remaining :: "nat \<Rightarrow> nat \<Rightarrow> pc \<Rightarrow> nat" where
  "remaining n m (Submitting i) = 3 * (n - i) + 1 + n * (2 + 2 * m) + 2 * m + 2"
| "remaining n m (Draining i) = (n - i) * (2 + 2 * m) + 2 * m + 2"
| "remaining n m (Folding i) = 1 + (n - Suc i) * (2 + 2 * m) + 2 * m + 2"
| "remaining n m Finalizing = 1"
| "remaining n m Returned = 0"
| "remaining n m (Aborted e) = 0"

definition steps_left :: "nat \<Rightarrow> nat \<Rightarrow> 'f load_state \<Rightarrow> nat" where
  "steps_left n m s =
     (if is_dead (pc s) then 0
      else remaining n m (pc s) + 2 * length (load_queue s) + length (load_running s) +
           2 * length (pool_queue s) + length (pool_running s))"

definition max_steps :: "nat \<Rightarrow> nat \<Rightarrow> nat" where
  "max_steps n m = 3 * n + 1 + n * (2 + 2 * m) + 2 * m + 2"

subsection \<open>Example inputs\<close>

text \<open>
  The header \<^verbatim>\<open>"id\tx\ty\tlabel"\<close> with the configuration of two raw float columns
  and one string column, and a header that names \<open>x\<close> twice.
\<close>

definition example_header :: string where
  "example_header = ''id'' @ [TAB] @ ''x'' @ [TAB] @ ''y'' @ [TAB] @ ''label'' @ [NL]"

definition example_config :: TSVDataConfig where
  "example_config =
     \<lparr>binned_float_column = [], raw_float_column = [''x'', ''y''], string_column = [''label'']\<rparr>"

definition twice_header :: string where
  "twice_header = ''x'' @ [TAB] @ ''y'' @ [TAB] @ '' x '' @ [NL]"

definition twice_config :: TSVDataConfig where
  "twice_config = \<lparr>binned_float_column = [''x''], raw_float_column = [], string_column = [''x'', ''y'']\<rparr>"

text \<open>
  The two one-row files \<^verbatim>\<open>"1\t0.5\t1.2\tA"\<close> and \<^verbatim>\<open>"2\t0.7\t0.9\tB"\<close>, and a
  list of files whose second member does not exist.
\<close>

definition example_files :: files where
  "example_files =
     [''header'' \<mapsto> example_header,
      ''a.tsv'' \<mapsto> ''1'' @ [TAB] @ ''0.5'' @ [TAB] @ ''1.2'' @ [TAB] @ ''A'',
      ''b.tsv'' \<mapsto> ''2'' @ [TAB] @ ''0.7'' @ [TAB] @ ''0.9'' @ [TAB] @ ''B'']"

definition example_world :: "(string \<Rightarrow> 'f) \<Rightarrow> 'f world" where
  "example_world to_float = tsv_world to_float example_files"

definition example_tsvs :: "string list" where
  "example_tsvs = [''a.tsv'', ''b.tsv'']"

definition missing_tsvs :: "string list" where
  "missing_tsvs = [''a.tsv'', ''missing.tsv'', ''b.tsv'']"



definition one_at_a_time :: "(string \<Rightarrow> 'f) \<Rightarrow> ref \<Rightarrow> 'f action list" where
  "one_at_a_time to_float n =
     [Main, Main, Main,
      Start_load (LoadBlock ''a.tsv'' 0), End_load (LoadBlock ''a.tsv'' 0),
      Main,
      Start_task (Add RawFloatColumn n (Floats [to_float ''0.5''])),
      End_task (Add RawFloatColumn n (Floats [to_float ''0.5''])),
      Start_task (Add RawFloatColumn (Suc n) (Floats [to_float ''1.2''])),
      End_task (Add RawFloatColumn (Suc n) (Floats [to_float ''1.2''])),
      Start_task (Add StringColumn (Suc (Suc n)) (Strings [''A''])),
      End_task (Add StringColumn (Suc (Suc n)) (Strings [''A''])),
      Main,
      Start_load (LoadBlock ''b.tsv'' 1), End_load (LoadBlock ''b.tsv'' 1),
      Main,
      Start_task (Add RawFloatColumn n (Floats [to_float ''0.7''])),
      End_task (Add RawFloatColumn n (Floats [to_float ''0.7''])),
      Start_task (Add RawFloatColumn (Suc n) (Floats [to_float ''0.9''])),
      End_task (Add RawFloatColumn (Suc n) (Floats [to_float ''0.9''])),
      Start_task (Add StringColumn (Suc (Suc n)) (Strings [''B''])),
      End_task (Add StringColumn (Suc (Suc n)) (Strings [''B''])),
      Main, Main,
      Start_task (Finalize StringColumn (Suc (Suc n))),
      End_task (Finalize StringColumn (Suc (Suc n))),
      Start_task (Finalize RawFloatColumn n), End_task (Finalize RawFloatColumn n),
      Start_task (Finalize RawFloatColumn (Suc n)), End_task (Finalize RawFloatColumn (Suc n)),
      Main]"

section \<open>Schema resolution\<close>

subsection \<open>The header index and the three loops\<close>

lemma index_headers_absent:
  "name \<notin> TrimWhiteSpace ` set hs \<Longrightarrow> index_headers hs i m name = m name"
  by (induction hs arbitrary: i m) auto

lemma index_headers_present:
  "name \<in> TrimWhiteSpace ` set hs \<Longrightarrow>
   \<exists>j<length hs. index_headers hs i m name = Some (i + j) \<and> TrimWhiteSpace (hs ! j) = name \<and>
      (\<forall>j'<length hs. j < j' \<longrightarrow> TrimWhiteSpace (hs ! j') \<noteq> name)"
proof (induction hs arbitrary: i m)
  case Nil
  then show ?case by simp
next
  case (Cons h hs)
  show ?case
  proof (cases "name \<in> TrimWhiteSpace ` set hs")
    case True
    from Cons.IH [OF True, of "Suc i" "m(TrimWhiteSpace h \<mapsto> i)"]
    obtain j where j: "j < length hs"
      "index_headers hs (Suc i) (m(TrimWhiteSpace h \<mapsto> i)) name = Some (Suc i + j)"
      "TrimWhiteSpace (hs ! j) = name"
      "\<forall>j'<length hs. j < j' \<longrightarrow> TrimWhiteSpace (hs ! j') \<noteq> name"
      by blast
    have "\<forall>j'<length (h # hs). Suc j < j' \<longrightarrow> TrimWhiteSpace ((h # hs) ! j') \<noteq> name"
    proof (intro allI impI)
      fix j' assume a: "j' < length (h # hs)" "Suc j < j'"
      then obtain k where k: "j' = Suc k" by (cases j') auto
      with a j(4) show "TrimWhiteSpace ((h # hs) ! j') \<noteq> name" by simp
    qed
    with j show ?thesis
      by (intro exI [of _ "Suc j"]) simp
  next
    case False
    with Cons.prems have h: "TrimWhiteSpace h = name" by auto
    have "\<forall>j'<length (h # hs). 0 < j' \<longrightarrow> TrimWhiteSpace ((h # hs) ! j') \<noteq> name"
    proof (intro allI impI)
      fix j' assume a: "j' < length (h # hs)" "0 < j'"
      then obtain k where k: "j' = Suc k" by (cases j') auto
      with a have "hs ! k \<in> set hs" by simp
      with False k show "TrimWhiteSpace ((h # hs) ! j') \<noteq> name" by auto
    qed
    with h False show ?thesis
      by (intro exI [of _ 0]) (simp add: index_headers_absent)
  qed
qed

lemma index_headers_None_iff:
  "index_headers hs 0 Map.empty name = None \<longleftrightarrow> name \<notin> TrimWhiteSpace ` set hs"
  using index_headers_present [of name hs 0 Map.empty] index_headers_absent [of name hs 0 Map.empty]
  by auto

lemma upt_head: "[a ..< Suc (a + n)] = a # [Suc a ..< Suc (a + n)]"
  by (rule upt_conv_Cons) simp

lemma upt_three:
  "[n ..< n + a] @ [n + a ..< n + a + b] @ [n + a + b ..< n + a + b + c] = [n ..< n + (a + (b + c))]"
proof -
  have 1: "[n ..< n + a + b] = [n ..< n + a] @ [n + a ..< n + a + b]"
    by (rule upt_add_eq_append) simp
  have 2: "[n ..< n + a + b + c] = [n ..< n + a + b] @ [n + a + b ..< n + a + b + c]"
    by (rule upt_add_eq_append) simp
  have 3: "n + (a + (b + c)) = n + a + b + c" by simp
  show ?thesis unfolding 3 2 1 by simp
qed

lemma reset_column_layout:
  assumes "reset_column k h s = (p, s1)"
  shows "float_column_indices s1 = float_column_indices s"
    and "string_column_indices s1 = string_column_indices s"
    and "binned_float_columns s1 = binned_float_columns s"
    and "raw_float_columns s1 = raw_float_columns s"
    and "string_columns s1 = string_columns s"
  using assms
  by (auto simp: reset_column_def new_column_def delete_column_def Let_def
           split: list.splits option.splits)

lemma for_each_binned_all:
  "for_each (add_binned_float m) names s = Inr s' \<Longrightarrow>
     (float_column_indices s' = float_column_indices s @ map (\<lambda>h. the (m h)) names) \<and>
     (map snd (binned_float_columns s') = map snd (binned_float_columns s) @
           [length (float_column_indices s) ..< length (float_column_indices s) + length names]) \<and>
     (raw_float_columns s' = raw_float_columns s) \<and>
     (string_columns s' = string_columns s) \<and>
     (string_column_indices s' = string_column_indices s) \<and>
     (\<forall>h\<in>set names. m h \<noteq> None)"
proof (induction names arbitrary: s)
  case Nil
  then show ?case by simp
next
  case (Cons h hs)
  from Cons.prems obtain s1 where 1: "add_binned_float m h s = Inr s1"
    and 2: "for_each (add_binned_float m) hs s1 = Inr s'"
    by (auto split: sum.splits)
  from 1 obtain idx where m: "m h = Some idx"
    by (auto simp: add_binned_float_def split: option.splits)
  obtain p t where r: "reset_column BinnedFloatColumn h s = (p, t)"
    by (cases "reset_column BinnedFloatColumn h s")
  note l = reset_column_layout [OF r]
  from 1 m r have f: "float_column_indices s1 = float_column_indices s @ [idx]"
    "string_column_indices s1 = string_column_indices s"
    "binned_float_columns s1 = binned_float_columns s @ [(p, length (float_column_indices s))]"
    "raw_float_columns s1 = raw_float_columns s" "string_columns s1 = string_columns s"
    by (auto simp: add_binned_float_def Let_def l)
  from Cons.IH [OF 2] m show ?case
    by (simp add: f upt_head del: upt_Suc)
qed

lemma for_each_binned:
  assumes "for_each (add_binned_float m) names s = Inr s'"
  shows "float_column_indices s' = float_column_indices s @ map (\<lambda>h. the (m h)) names"
    and "map snd (binned_float_columns s') = map snd (binned_float_columns s) @
           [length (float_column_indices s) ..< length (float_column_indices s) + length names]"
    and "raw_float_columns s' = raw_float_columns s"
    and "string_columns s' = string_columns s"
    and "string_column_indices s' = string_column_indices s"
    and "\<forall>h\<in>set names. m h \<noteq> None"
  using for_each_binned_all [OF assms] by blast+

lemma for_each_raw_all:
  "for_each (add_raw_float m) names s = Inr s' \<Longrightarrow>
     (float_column_indices s' = float_column_indices s @ map (\<lambda>h. the (m h)) names) \<and>
     (map snd (raw_float_columns s') = map snd (raw_float_columns s) @
           [length (float_column_indices s) ..< length (float_column_indices s) + length names]) \<and>
     (binned_float_columns s' = binned_float_columns s) \<and>
     (string_columns s' = string_columns s) \<and>
     (string_column_indices s' = string_column_indices s) \<and>
     (\<forall>h\<in>set names. m h \<noteq> None)"
proof (induction names arbitrary: s)
  case Nil
  then show ?case by simp
next
  case (Cons h hs)
  from Cons.prems obtain s1 where 1: "add_raw_float m h s = Inr s1"
    and 2: "for_each (add_raw_float m) hs s1 = Inr s'"
    by (auto split: sum.splits)
  from 1 obtain idx where m: "m h = Some idx"
    by (auto simp: add_raw_float_def split: option.splits)
  obtain p t where r: "reset_column RawFloatColumn h s = (p, t)"
    by (cases "reset_column RawFloatColumn h s")
  note l = reset_column_layout [OF r]
  from 1 m r have f: "float_column_indices s1 = float_column_indices s @ [idx]"
    "string_column_indices s1 = string_column_indices s"
    "binned_float_columns s1 = binned_float_columns s"
    "raw_float_columns s1 = raw_float_columns s @ [(p, length (float_column_indices s))]"
    "string_columns s1 = string_columns s"
    by (auto simp: add_raw_float_def Let_def l)
  from Cons.IH [OF 2] m show ?case
    by (simp add: f upt_head del: upt_Suc)
qed

lemma for_each_raw:
  assumes "for_each (add_raw_float m) names s = Inr s'"
  shows "float_column_indices s' = float_column_indices s @ map (\<lambda>h. the (m h)) names"
    and "map snd (raw_float_columns s') = map snd (raw_float_columns s) @
           [length (float_column_indices s) ..< length (float_column_indices s) + length names]"
    and "binned_float_columns s' = binned_float_columns s"
    and "string_columns s' = string_columns s"
    and "string_column_indices s' = string_column_indices s"
    and "\<forall>h\<in>set names. m h \<noteq> None"
  using for_each_raw_all [OF assms] by blast+

lemma for_each_string_all:
  "for_each (add_string m) names s = Inr s' \<Longrightarrow>
     (string_column_indices s' = string_column_indices s @ map (\<lambda>h. the (m h)) names) \<and>
     (map snd (string_columns s') = map snd (string_columns s) @
           [length (string_column_indices s) ..< length (string_column_indices s) + length names]) \<and>
     (binned_float_columns s' = binned_float_columns s) \<and>
     (raw_float_columns s' = raw_float_columns s) \<and>
     (float_column_indices s' = float_column_indices s) \<and>
     (\<forall>h\<in>set names. m h \<noteq> None)"
proof (induction names arbitrary: s)
  case Nil
  then show ?case by simp
next
  case (Cons h hs)
  from Cons.prems obtain s1 where 1: "add_string m h s = Inr s1"
    and 2: "for_each (add_string m) hs s1 = Inr s'"
    by (auto split: sum.splits)
  from 1 obtain idx where m: "m h = Some idx"
    by (auto simp: add_string_def split: option.splits)
  obtain p t where r: "reset_column StringColumn h s = (p, t)"
    by (cases "reset_column StringColumn h s")
  note l = reset_column_layout [OF r]
  from 1 m r have f: "float_column_indices s1 = float_column_indices s"
    "string_column_indices s1 = string_column_indices s @ [idx]"
    "binned_float_columns s1 = binned_float_columns s"
    "raw_float_columns s1 = raw_float_columns s"
    "string_columns s1 = string_columns s @ [(p, length (string_column_indices s))]"
    by (auto simp: add_string_def Let_def l)
  from Cons.IH [OF 2] m show ?case
    by (simp add: f upt_head del: upt_Suc)
qed

lemma for_each_string:
  assumes "for_each (add_string m) names s = Inr s'"
  shows "string_column_indices s' = string_column_indices s @ map (\<lambda>h. the (m h)) names"
    and "map snd (string_columns s') = map snd (string_columns s) @
           [length (string_column_indices s) ..< length (string_column_indices s) + length names]"
    and "binned_float_columns s' = binned_float_columns s"
    and "raw_float_columns s' = raw_float_columns s"
    and "float_column_indices s' = float_column_indices s"
    and "\<forall>h\<in>set names. m h \<noteq> None"
  using for_each_string_all [OF assms] by blast+

lemma for_each_binned_Inl:
  "for_each (add_binned_float m) names s = Inl e \<Longrightarrow>
   \<exists>h\<in>set names. m h = None \<and> e = Configuration_error (Failed_to_find h)"
  by (induction names arbitrary: s)
     (auto simp: add_binned_float_def Let_def split: option.splits sum.splits prod.splits)

lemma for_each_raw_Inl:
  "for_each (add_raw_float m) names s = Inl e \<Longrightarrow>
   \<exists>h\<in>set names. m h = None \<and> e = Configuration_error (Failed_to_find h)"
  by (induction names arbitrary: s)
     (auto simp: add_raw_float_def Let_def split: option.splits sum.splits prod.splits)

lemma for_each_string_Inl:
  "for_each (add_string m) names s = Inl e \<Longrightarrow>
   \<exists>h\<in>set names. m h = None \<and> e = Configuration_error (Failed_to_find h)"
  by (induction names arbitrary: s)
     (auto simp: add_string_def Let_def split: option.splits sum.splits prod.splits)

lemma SetupColumns_loops:
  assumes "SetupColumns files header_file config s = Inr st"
  obtains contents s1 s2 where "files header_file = Some contents"
    and "for_each (add_binned_float (index_headers (split TAB contents) 0 Map.empty))
           (binned_float_column config) s = Inr s1"
    and "for_each (add_raw_float (index_headers (split TAB contents) 0 Map.empty))
           (raw_float_column config) s1 = Inr s2"
    and "for_each (add_string (index_headers (split TAB contents) 0 Map.empty))
           (string_column config) s2 = Inr st"
  using assms by (auto simp: SetupColumns_def Let_def split: option.splits sum.splits)

lemma SetupColumns_Inr:
  assumes "SetupColumns files header_file config (new_TSVDataStore n) = Inr st"
  obtains contents where "files header_file = Some contents"
    and "\<forall>h\<in>set (configured config).
            index_headers (split TAB contents) 0 Map.empty h \<noteq> None"
    and "float_column_indices st =
           map (\<lambda>h. the (index_headers (split TAB contents) 0 Map.empty h))
             (binned_float_column config @ raw_float_column config)"
    and "string_column_indices st =
           map (\<lambda>h. the (index_headers (split TAB contents) 0 Map.empty h)) (string_column config)"
    and "map snd (binned_float_columns st) = [0 ..< length (binned_float_column config)]"
    and "map snd (raw_float_columns st) =
           [length (binned_float_column config) ..<
            length (binned_float_column config) + length (raw_float_column config)]"
    and "map snd (string_columns st) = [0 ..< length (string_column config)]"
proof -
  from assms obtain contents s1 s2 where c: "files header_file = Some contents" and
    1: "for_each (add_binned_float (index_headers (split TAB contents) 0 Map.empty))
          (binned_float_column config) (new_TSVDataStore n) = Inr s1" and
    2: "for_each (add_raw_float (index_headers (split TAB contents) 0 Map.empty))
          (raw_float_column config) s1 = Inr s2" and
    3: "for_each (add_string (index_headers (split TAB contents) 0 Map.empty))
          (string_column config) s2 = Inr st"
    by (rule SetupColumns_loops)
  note b = for_each_binned [OF 1] and r = for_each_raw [OF 2] and s = for_each_string [OF 3]
  have e: "float_column_indices (new_TSVDataStore n) = []"
    "string_column_indices (new_TSVDataStore n) = []"
    "binned_float_columns (new_TSVDataStore n) = []" "raw_float_columns (new_TSVDataStore n) = []"
    "string_columns (new_TSVDataStore n) = []"
    by (simp_all add: new_TSVDataStore_def)
  have p1: "\<forall>h\<in>set (configured config). index_headers (split TAB contents) 0 Map.empty h \<noteq> None"
    using b(6) r(6) s(6) by (auto simp: configured_def)
  have p2: "float_column_indices st =
           map (\<lambda>h. the (index_headers (split TAB contents) 0 Map.empty h))
             (binned_float_column config @ raw_float_column config)"
    using b(1) r(1) s(5) e by simp
  have p3: "string_column_indices st =
           map (\<lambda>h. the (index_headers (split TAB contents) 0 Map.empty h)) (string_column config)"
    using b(5) r(5) s(1) e by simp
  have p4: "map snd (binned_float_columns st) = [0 ..< length (binned_float_column config)]"
    using b(2) r(3) s(3) e by simp
  have p5: "map snd (raw_float_columns st) =
           [length (binned_float_column config) ..<
            length (binned_float_column config) + length (raw_float_column config)]"
    using b(1,3) r(2) s(4) e by simp
  have p6: "map snd (string_columns st) = [0 ..< length (string_column config)]"
    using b(4,5) r(4,5) s(2) e by simp
  from c p1 p2 p3 p4 p5 p6 that show thesis by blast
qed

subsection \<open>The column objects when no name is configured twice\<close>

lemma reset_column_fresh:
  assumes "free_refs s = []" "column_map s h = None"
  shows "reset_column k h s =
     (next_ref s,
      s\<lparr>objects := (objects s)(next_ref s \<mapsto> \<lparr>col_kind = k, col_name = h\<rparr>),
        next_ref := Suc (next_ref s),
        column_map := (column_map s)(h \<mapsto> next_ref s)\<rparr>)"
  using assms by (simp add: reset_column_def new_column_def)

lemma for_each_refs:
  assumes body: "\<And>h s s1. body h s = Inr s1 \<Longrightarrow> free_refs s = [] \<Longrightarrow> column_map s h = None \<Longrightarrow>
      free_refs s1 = [] \<and> next_ref s1 = Suc (next_ref s) \<and>
      column_map s1 = (column_map s)(h \<mapsto> next_ref s) \<and>
      objects s1 = (objects s)(next_ref s \<mapsto> \<lparr>col_kind = K, col_name = h\<rparr>) \<and>
      map fst (cols s1) = map fst (cols s) @ [next_ref s]"
  shows "for_each body names s = Inr s' \<Longrightarrow> free_refs s = [] \<Longrightarrow> distinct names \<Longrightarrow>
     \<forall>h\<in>set names. column_map s h = None \<Longrightarrow>
     free_refs s' = [] \<and> next_ref s' = next_ref s + length names \<and>
     map fst (cols s') = map fst (cols s) @ [next_ref s ..< next_ref s + length names] \<and>
     (\<forall>k<length names.
        column_map s' (names ! k) = Some (next_ref s + k) \<and>
        objects s' (next_ref s + k) = Some \<lparr>col_kind = K, col_name = names ! k\<rparr>) \<and>
     (\<forall>h. h \<notin> set names \<longrightarrow> column_map s' h = column_map s h) \<and>
     (\<forall>p<next_ref s. objects s' p = objects s p)"
proof (induction names arbitrary: s)
  case Nil
  then show ?case by simp
next
  case (Cons h hs)
  from Cons.prems(1) obtain s1 where 1: "body h s = Inr s1"
    and 2: "for_each body hs s1 = Inr s'"
    by (auto split: sum.splits)
  from Cons.prems(4) have "column_map s h = None" by simp
  from body [OF 1 Cons.prems(2) this] have s1: "free_refs s1 = []"
    "next_ref s1 = Suc (next_ref s)" "column_map s1 = (column_map s)(h \<mapsto> next_ref s)"
    "objects s1 = (objects s)(next_ref s \<mapsto> \<lparr>col_kind = K, col_name = h\<rparr>)"
    "map fst (cols s1) = map fst (cols s) @ [next_ref s]"
    by simp_all
  from Cons.prems(3) have d: "distinct hs" "h \<notin> set hs" by simp_all
  from Cons.prems(4) d(2) have none: "\<forall>h'\<in>set hs. column_map s1 h' = None"
    by (auto simp: s1(3))
  from Cons.IH [OF 2 s1(1) d(1) none] have ih: "free_refs s' = []"
    "next_ref s' = next_ref s1 + length hs"
    "map fst (cols s') = map fst (cols s1) @ [next_ref s1 ..< next_ref s1 + length hs]"
    "\<And>k. k < length hs \<Longrightarrow> column_map s' (hs ! k) = Some (next_ref s1 + k) \<and>
        objects s' (next_ref s1 + k) = Some \<lparr>col_kind = K, col_name = hs ! k\<rparr>"
    "\<And>h'. h' \<notin> set hs \<Longrightarrow> column_map s' h' = column_map s1 h'"
    "\<And>p. p < next_ref s1 \<Longrightarrow> objects s' p = objects s1 p"
    by simp_all
  have a: "map fst (cols s') =
           map fst (cols s) @ [next_ref s ..< next_ref s + length (h # hs)]"
    using ih(3) by (simp add: s1 upt_head del: upt_Suc)
  have b: "column_map s' ((h # hs) ! k) = Some (next_ref s + k) \<and>
           objects s' (next_ref s + k) = Some \<lparr>col_kind = K, col_name = (h # hs) ! k\<rparr>"
    if "k < length (h # hs)" for k
  proof (cases k)
    case 0
    with ih(5) [OF d(2)] ih(6) [of "next_ref s"] show ?thesis by (simp add: s1)
  next
    case (Suc k')
    with that ih(4) [of k'] show ?thesis by (simp add: s1)
  qed
  have c: "column_map s' h' = column_map s h'" if "h' \<notin> set (h # hs)" for h'
    using that ih(5) [of h'] by (simp add: s1)
  have e: "objects s' p = objects s p" if "p < next_ref s" for p
    using that ih(6) [of p] by (simp add: s1)
  from ih(1,2) a b c e show ?case by (simp add: s1)
qed

lemma add_binned_float_fresh:
  assumes "add_binned_float m h s = Inr s1" "free_refs s = []" "column_map s h = None"
  shows "free_refs s1 = [] \<and> next_ref s1 = Suc (next_ref s) \<and>
      column_map s1 = (column_map s)(h \<mapsto> next_ref s) \<and>
      objects s1 = (objects s)(next_ref s \<mapsto> \<lparr>col_kind = BinnedFloatColumn, col_name = h\<rparr>) \<and>
      map fst (binned_float_columns s1) = map fst (binned_float_columns s) @ [next_ref s]"
  using assms
  by (auto simp: add_binned_float_def reset_column_fresh [OF assms(2,3)] split: option.splits)

lemma add_raw_float_fresh:
  assumes "add_raw_float m h s = Inr s1" "free_refs s = []" "column_map s h = None"
  shows "free_refs s1 = [] \<and> next_ref s1 = Suc (next_ref s) \<and>
      column_map s1 = (column_map s)(h \<mapsto> next_ref s) \<and>
      objects s1 = (objects s)(next_ref s \<mapsto> \<lparr>col_kind = RawFloatColumn, col_name = h\<rparr>) \<and>
      map fst (raw_float_columns s1) = map fst (raw_float_columns s) @ [next_ref s]"
  using assms
  by (auto simp: add_raw_float_def reset_column_fresh [OF assms(2,3)] split: option.splits)

lemma add_string_fresh:
  assumes "add_string m h s = Inr s1" "free_refs s = []" "column_map s h = None"
  shows "free_refs s1 = [] \<and> next_ref s1 = Suc (next_ref s) \<and>
      column_map s1 = (column_map s)(h \<mapsto> next_ref s) \<and>
      objects s1 = (objects s)(next_ref s \<mapsto> \<lparr>col_kind = StringColumn, col_name = h\<rparr>) \<and>
      map fst (string_columns s1) = map fst (string_columns s) @ [next_ref s]"
  using assms
  by (auto simp: add_string_def reset_column_fresh [OF assms(2,3)] split: option.splits)

lemma SetupColumns_refs:
  assumes su: "SetupColumns files header_file config (new_TSVDataStore n) = Inr st"
    and dn: "distinct (configured config)"
  shows "map fst (binned_float_columns st) = [n ..< n + length (binned_float_column config)]"
    and "map fst (raw_float_columns st) =
           [n + length (binned_float_column config) ..<
            n + length (binned_float_column config) + length (raw_float_column config)]"
    and "map fst (string_columns st) =
           [n + length (binned_float_column config) + length (raw_float_column config) ..<
            n + length (binned_float_column config) + length (raw_float_column config) +
            length (string_column config)]"
    and "\<And>k. k < length (binned_float_column config) \<Longrightarrow>
           column_map st (binned_float_column config ! k) = Some (n + k) \<and>
           objects st (n + k) =
             Some \<lparr>col_kind = BinnedFloatColumn, col_name = binned_float_column config ! k\<rparr>"
    and "\<And>k. k < length (raw_float_column config) \<Longrightarrow>
           column_map st (raw_float_column config ! k) =
             Some (n + length (binned_float_column config) + k) \<and>
           objects st (n + length (binned_float_column config) + k) =
             Some \<lparr>col_kind = RawFloatColumn, col_name = raw_float_column config ! k\<rparr>"
    and "\<And>k. k < length (string_column config) \<Longrightarrow>
           column_map st (string_column config ! k) =
             Some (n + length (binned_float_column config) + length (raw_float_column config) + k) \<and>
           objects st (n + length (binned_float_column config) + length (raw_float_column config) + k) =
             Some \<lparr>col_kind = StringColumn, col_name = string_column config ! k\<rparr>"
proof -
  let ?B = "binned_float_column config" and ?R = "raw_float_column config"
  let ?S = "string_column config"
  let ?s0 = "new_TSVDataStore n"
  from su obtain contents s1 s2 where
    1: "for_each (add_binned_float (index_headers (split TAB contents) 0 Map.empty)) ?B ?s0 = Inr s1" and
    2: "for_each (add_raw_float (index_headers (split TAB contents) 0 Map.empty)) ?R s1 = Inr s2" and
    3: "for_each (add_string (index_headers (split TAB contents) 0 Map.empty)) ?S s2 = Inr st"
    by (rule SetupColumns_loops)
  from dn have d: "distinct ?B" "distinct ?R" "distinct ?S"
    "set ?B \<inter> set ?R = {}" "set ?B \<inter> set ?S = {}" "set ?R \<inter> set ?S = {}"
    by (auto simp: configured_def)
  have e: "free_refs ?s0 = []" "next_ref ?s0 = n" "column_map ?s0 = Map.empty"
    "binned_float_columns ?s0 = []" "raw_float_columns ?s0 = []" "string_columns ?s0 = []"
    by (simp_all add: new_TSVDataStore_def)
  note lb = for_each_binned [OF 1] and lr = for_each_raw [OF 2] and ls = for_each_string [OF 3]
  have "\<forall>h\<in>set ?B. column_map ?s0 h = None" by (simp add: e)
  from for_each_refs [where body = "add_binned_float (index_headers (split TAB contents) 0 Map.empty)"
      and K = BinnedFloatColumn and cols = binned_float_columns,
      OF add_binned_float_fresh 1 e(1) d(1) this]
  have b: "free_refs s1 = []" "next_ref s1 = n + length ?B"
    "map fst (binned_float_columns s1) = [n ..< n + length ?B]"
    "\<And>k. k < length ?B \<Longrightarrow> column_map s1 (?B ! k) = Some (n + k) \<and>
        objects s1 (n + k) = Some \<lparr>col_kind = BinnedFloatColumn, col_name = ?B ! k\<rparr>"
    "\<And>h. h \<notin> set ?B \<Longrightarrow> column_map s1 h = None"
    by (simp_all add: e)
  from d(4) b(5) have "\<forall>h\<in>set ?R. column_map s1 h = None" by auto
  from for_each_refs [where body = "add_raw_float (index_headers (split TAB contents) 0 Map.empty)"
      and K = RawFloatColumn and cols = raw_float_columns,
      OF add_raw_float_fresh 2 b(1) d(2) this]
  have r: "free_refs s2 = []" "next_ref s2 = n + length ?B + length ?R"
    "map fst (raw_float_columns s2) = map fst (raw_float_columns s1) @
       [n + length ?B ..< n + length ?B + length ?R]"
    "\<And>k. k < length ?R \<Longrightarrow> column_map s2 (?R ! k) = Some (n + length ?B + k) \<and>
        objects s2 (n + length ?B + k) = Some \<lparr>col_kind = RawFloatColumn, col_name = ?R ! k\<rparr>"
    "\<And>h. h \<notin> set ?R \<Longrightarrow> column_map s2 h = column_map s1 h"
    "\<And>p. p < n + length ?B \<Longrightarrow> objects s2 p = objects s1 p"
    by (simp_all add: b(2))
  have "\<forall>h\<in>set ?S. column_map s2 h = None"
  proof
    fix h assume "h \<in> set ?S"
    with d(5,6) have "h \<notin> set ?B" "h \<notin> set ?R" by auto
    with r(5) b(5) show "column_map s2 h = None" by simp
  qed
  from for_each_refs [where body = "add_string (index_headers (split TAB contents) 0 Map.empty)"
      and K = StringColumn and cols = string_columns,
      OF add_string_fresh 3 r(1) d(3) this]
  have s: "map fst (string_columns st) = map fst (string_columns s2) @
       [n + length ?B + length ?R ..< n + length ?B + length ?R + length ?S]"
    "\<And>k. k < length ?S \<Longrightarrow> column_map st (?S ! k) = Some (n + length ?B + length ?R + k) \<and>
        objects st (n + length ?B + length ?R + k) =
          Some \<lparr>col_kind = StringColumn, col_name = ?S ! k\<rparr>"
    "\<And>h. h \<notin> set ?S \<Longrightarrow> column_map st h = column_map s2 h"
    "\<And>p. p < n + length ?B + length ?R \<Longrightarrow> objects st p = objects s2 p"
    by (simp_all add: r(2))
  show "map fst (binned_float_columns st) = [n ..< n + length ?B]"
    using b(3) lr(3) ls(3) by simp
  show "map fst (raw_float_columns st) = [n + length ?B ..< n + length ?B + length ?R]"
    using r(3) lb(3) ls(4) e by simp
  show "map fst (string_columns st) =
          [n + length ?B + length ?R ..< n + length ?B + length ?R + length ?S]"
    using s(1) lb(4) lr(4) e by simp
  show "column_map st (?B ! k) = Some (n + k) \<and>
        objects st (n + k) = Some \<lparr>col_kind = BinnedFloatColumn, col_name = ?B ! k\<rparr>"
    if k: "k < length ?B" for k
  proof -
    from k have "?B ! k \<in> set ?B" by simp
    with d(4,5) have "?B ! k \<notin> set ?R" "?B ! k \<notin> set ?S" by auto
    with s(3) r(5) have "column_map st (?B ! k) = column_map s1 (?B ! k)" by simp
    moreover from k s(4) [of "n + k"] r(6) [of "n + k"]
    have "objects st (n + k) = objects s1 (n + k)" by simp
    ultimately show ?thesis using b(4) [OF k] by simp
  qed
  show "column_map st (?R ! k) = Some (n + length ?B + k) \<and>
        objects st (n + length ?B + k) = Some \<lparr>col_kind = RawFloatColumn, col_name = ?R ! k\<rparr>"
    if k: "k < length ?R" for k
  proof -
    from k have "?R ! k \<in> set ?R" by simp
    with d(6) have "?R ! k \<notin> set ?S" by auto
    with s(3) have "column_map st (?R ! k) = column_map s2 (?R ! k)" by simp
    moreover from k s(4) [of "n + length ?B + k"]
    have "objects st (n + length ?B + k) = objects s2 (n + length ?B + k)" by simp
    ultimately show ?thesis using r(4) [OF k] by simp
  qed
  show "column_map st (?S ! k) = Some (n + length ?B + length ?R + k) \<and>
        objects st (n + length ?B + length ?R + k) =
          Some \<lparr>col_kind = StringColumn, col_name = ?S ! k\<rparr>"
    if k: "k < length ?S" for k
    using s(2) [OF k] .
qed

lemma nth_fst_snd:
  "k < length xs \<Longrightarrow> map fst xs = [a ..< a + length xs] \<Longrightarrow> map snd xs = [b ..< b + length xs] \<Longrightarrow>
   xs ! k = (a + k, b + k)"
proof -
  assume k: "k < length xs" and f: "map fst xs = [a ..< a + length xs]"
    and s: "map snd xs = [b ..< b + length xs]"
  from k have "fst (xs ! k) = map fst xs ! k" "snd (xs ! k) = map snd xs ! k" by simp_all
  with k have "fst (xs ! k) = a + k" "snd (xs ! k) = b + k" by (simp_all add: f s)
  then show ?thesis by (cases "xs ! k") simp
qed

lemma SetupColumns_entries:
  assumes su: "SetupColumns files header_file config (new_TSVDataStore n) = Inr st"
    and dn: "distinct (configured config)"
  shows "\<And>k. k < length (binned_float_column config) \<Longrightarrow>
           binned_float_columns st ! k = (n + k, k)"
    and "\<And>k. k < length (raw_float_column config) \<Longrightarrow>
           raw_float_columns st ! k =
             (n + length (binned_float_column config) + k, length (binned_float_column config) + k)"
    and "\<And>k. k < length (string_column config) \<Longrightarrow>
           string_columns st ! k =
             (n + length (binned_float_column config) + length (raw_float_column config) + k, k)"
    and "length (binned_float_columns st) = length (binned_float_column config)"
    and "length (raw_float_columns st) = length (raw_float_column config)"
    and "length (string_columns st) = length (string_column config)"
proof -
  let ?B = "binned_float_column config" and ?R = "raw_float_column config"
  let ?S = "string_column config"
  note r = SetupColumns_refs(1-3) [OF su dn]
  from su have "map snd (binned_float_columns st) = [0 ..< length ?B] \<and>
    map snd (raw_float_columns st) = [length ?B ..< length ?B + length ?R] \<and>
    map snd (string_columns st) = [0 ..< length ?S]"
    by (rule SetupColumns_Inr) simp
  then have l: "map snd (binned_float_columns st) = [0 ..< length ?B]"
    "map snd (raw_float_columns st) = [length ?B ..< length ?B + length ?R]"
    "map snd (string_columns st) = [0 ..< length ?S]"
    by simp_all
  from l(1) have "length (map snd (binned_float_columns st)) = length ?B" by simp
  then show lb: "length (binned_float_columns st) = length ?B" by simp
  from l(2) have "length (map snd (raw_float_columns st)) = length ?R" by simp
  then show lr: "length (raw_float_columns st) = length ?R" by simp
  from l(3) have "length (map snd (string_columns st)) = length ?S" by simp
  then show ls: "length (string_columns st) = length ?S" by simp
  show "binned_float_columns st ! k = (n + k, k)" if "k < length ?B" for k
    using nth_fst_snd [of k "binned_float_columns st" n 0] that r(1) l(1) lb by simp
  show "raw_float_columns st ! k = (n + length ?B + k, length ?B + k)" if "k < length ?R" for k
    using nth_fst_snd [of k "raw_float_columns st" "n + length ?B" "length ?B"] that r(2) l(2) lr
    by simp
  show "string_columns st ! k = (n + length ?B + length ?R + k, k)" if "k < length ?S" for k
    using nth_fst_snd [of k "string_columns st" "n + length ?B + length ?R" 0] that r(3) l(3) ls
    by simp
qed

lemma SetupColumns_alive:
  assumes su: "SetupColumns files header_file config (new_TSVDataStore n) = Inr st"
    and dn: "distinct (configured config)"
  shows "\<forall>(p, k)\<in>set (binned_float_columns st).
           \<exists>h. objects st p = Some \<lparr>col_kind = BinnedFloatColumn, col_name = h\<rparr> \<and>
               column_map st h = Some p"
    and "\<forall>(p, k)\<in>set (raw_float_columns st).
           \<exists>h. objects st p = Some \<lparr>col_kind = RawFloatColumn, col_name = h\<rparr> \<and>
               column_map st h = Some p"
    and "\<forall>(p, k)\<in>set (string_columns st).
           \<exists>h. objects st p = Some \<lparr>col_kind = StringColumn, col_name = h\<rparr> \<and>
               column_map st h = Some p"
proof -
  note e = SetupColumns_entries [OF su dn] and r = SetupColumns_refs(4-6) [OF su dn]
  show "\<forall>(p, k)\<in>set (binned_float_columns st).
           \<exists>h. objects st p = Some \<lparr>col_kind = BinnedFloatColumn, col_name = h\<rparr> \<and>
               column_map st h = Some p"
  proof (clarify)
    fix p k assume "(p, k) \<in> set (binned_float_columns st)"
    then obtain i where i: "i < length (binned_float_columns st)"
      "binned_float_columns st ! i = (p, k)" by (auto simp: in_set_conv_nth)
    with e(1,4) r(1) [of i] show "\<exists>h. objects st p =
        Some \<lparr>col_kind = BinnedFloatColumn, col_name = h\<rparr> \<and> column_map st h = Some p"
      by auto
  qed
  show "\<forall>(p, k)\<in>set (raw_float_columns st).
           \<exists>h. objects st p = Some \<lparr>col_kind = RawFloatColumn, col_name = h\<rparr> \<and>
               column_map st h = Some p"
  proof (clarify)
    fix p k assume "(p, k) \<in> set (raw_float_columns st)"
    then obtain i where i: "i < length (raw_float_columns st)"
      "raw_float_columns st ! i = (p, k)" by (auto simp: in_set_conv_nth)
    with e(2,5) r(2) [of i] show "\<exists>h. objects st p =
        Some \<lparr>col_kind = RawFloatColumn, col_name = h\<rparr> \<and> column_map st h = Some p"
      by auto
  qed
  show "\<forall>(p, k)\<in>set (string_columns st).
           \<exists>h. objects st p = Some \<lparr>col_kind = StringColumn, col_name = h\<rparr> \<and>
               column_map st h = Some p"
  proof (clarify)
    fix p k assume "(p, k) \<in> set (string_columns st)"
    then obtain i where i: "i < length (string_columns st)"
      "string_columns st ! i = (p, k)" by (auto simp: in_set_conv_nth)
    with e(3,6) r(3) [of i] show "\<exists>h. objects st p =
        Some \<lparr>col_kind = StringColumn, col_name = h\<rparr> \<and> column_map st h = Some p"
      by auto
  qed
qed

lemma SetupColumns_live:
  assumes su: "SetupColumns files header_file config (new_TSVDataStore n) = Inr st"
    and dn: "distinct (configured config)"
  shows "\<forall>p\<in>set (columns_of st). objects st p \<noteq> None"
proof
  fix p assume "p \<in> set (columns_of st)"
  then have "\<exists>k. (p, k) \<in> set (binned_float_columns st) \<or>
      (p, k) \<in> set (raw_float_columns st) \<or> (p, k) \<in> set (string_columns st)"
    by (auto simp: columns_of_def)
  then obtain k where "(p, k) \<in> set (binned_float_columns st) \<or>
      (p, k) \<in> set (raw_float_columns st) \<or> (p, k) \<in> set (string_columns st)" ..
  with SetupColumns_alive [OF su dn] show "objects st p \<noteq> None" by fastforce
qed

lemma SetupColumns_columns:
  assumes "SetupColumns files header_file config (new_TSVDataStore n) = Inr st"
    and "distinct (configured config)"
  shows "columns_of st = [n ..< n + length (configured config)]"
  using SetupColumns_refs(1-3) [OF assms]
    upt_three [of n "length (binned_float_column config)" "length (raw_float_column config)"
        "length (string_column config)"]
  by (simp add: columns_of_def configured_def)

lemma SetupColumns_distinct:
  assumes "SetupColumns files header_file config (new_TSVDataStore n) = Inr st"
    and "distinct (configured config)"
  shows "distinct (columns_of st)"
  by (simp add: SetupColumns_columns [OF assms])

lemma for_each_binned_total:
  "\<forall>h\<in>set names. m h \<noteq> None \<Longrightarrow> \<exists>s'. for_each (add_binned_float m) names s = Inr s'"
  by (induction names arbitrary: s)
     (auto simp: add_binned_float_def Let_def split: option.splits sum.splits prod.splits)

lemma for_each_raw_total:
  "\<forall>h\<in>set names. m h \<noteq> None \<Longrightarrow> \<exists>s'. for_each (add_raw_float m) names s = Inr s'"
  by (induction names arbitrary: s)
     (auto simp: add_raw_float_def Let_def split: option.splits sum.splits prod.splits)

lemma for_each_string_total:
  "\<forall>h\<in>set names. m h \<noteq> None \<Longrightarrow> \<exists>s'. for_each (add_string m) names s = Inr s'"
  by (induction names arbitrary: s)
     (auto simp: add_string_def Let_def split: option.splits sum.splits prod.splits)

lemma SetupColumns_succeeds:
  assumes "files header_file = Some contents"
    and "\<forall>h\<in>set (configured config). h \<in> set (headers_of contents)"
  shows "\<exists>st. SetupColumns files header_file config s = Inr st"
proof -
  define m where "m = index_headers (split TAB contents) 0 Map.empty"
  have m: "\<forall>h\<in>set (configured config). m h \<noteq> None"
    using assms(2) by (simp add: m_def index_headers_None_iff headers_of_def)
  from m obtain s1 where
    1: "for_each (add_binned_float m) (binned_float_column config) s = Inr s1"
    using for_each_binned_total [of "binned_float_column config" m s] by (auto simp: configured_def)
  from m obtain s2 where
    2: "for_each (add_raw_float m) (raw_float_column config) s1 = Inr s2"
    using for_each_raw_total [of "raw_float_column config" m s1] by (auto simp: configured_def)
  from m obtain s3 where
    3: "for_each (add_string m) (string_column config) s2 = Inr s3"
    using for_each_string_total [of "string_column config" m s2] by (auto simp: configured_def)
  from assms(1) 1 2 3 show ?thesis
    by (simp add: SetupColumns_def m_def Let_def)
qed

lemma SetupColumns_fails:
  assumes "files header_file = Some contents"
    and "\<exists>h\<in>set (configured config). h \<notin> set (headers_of contents)"
  shows "\<exists>h\<in>set (configured config). h \<notin> set (headers_of contents) \<and>
           SetupColumns files header_file config s = Inl (Configuration_error (Failed_to_find h))"
proof -
  define m where "m = index_headers (split TAB contents) 0 Map.empty"
  have none: "m h = None \<longleftrightarrow> h \<notin> set (headers_of contents)" for h
    by (simp add: m_def index_headers_None_iff headers_of_def)
  show ?thesis
  proof (cases "SetupColumns files header_file config s")
    case (Inl e)
    with assms(1) consider
        "for_each (add_binned_float m) (binned_float_column config) s = Inl e"
      | s1 where "for_each (add_raw_float m) (raw_float_column config) s1 = Inl e"
      | s2 where "for_each (add_string m) (string_column config) s2 = Inl e"
      by (auto simp: SetupColumns_def m_def Let_def split: sum.splits)
    then have "\<exists>h\<in>set (configured config). m h = None \<and> e = Configuration_error (Failed_to_find h)"
    proof cases
      case 1
      from for_each_binned_Inl [OF 1] show ?thesis by (auto simp: configured_def)
    next
      case 2
      from for_each_raw_Inl [OF 2] show ?thesis by (auto simp: configured_def)
    next
      case 3
      from for_each_string_Inl [OF 3] show ?thesis by (auto simp: configured_def)
    qed
    with Inl show ?thesis by (auto simp: none)
  next
    case (Inr st)
    with assms(1) obtain s1 s2 where
      1: "for_each (add_binned_float m) (binned_float_column config) s = Inr s1" and
      2: "for_each (add_raw_float m) (raw_float_column config) s1 = Inr s2" and
      3: "for_each (add_string m) (string_column config) s2 = Inr st"
      by (auto simp: SetupColumns_def m_def Let_def split: sum.splits)
    from for_each_binned(6) [OF 1] for_each_raw(6) [OF 2] for_each_string(6) [OF 3]
    have "\<forall>h\<in>set (configured config). m h \<noteq> None"
      by (auto simp: configured_def)
    with assms(2) show ?thesis by (auto simp: none)
  qed
qed

lemma header_position:
  assumes "h \<in> set (headers_of contents)"
  obtains j where "index_headers (split TAB contents) 0 Map.empty h = Some j"
    and "j < length (headers_of contents)" and "headers_of contents ! j = h"
    and "\<forall>j'<length (headers_of contents). j < j' \<longrightarrow> headers_of contents ! j' \<noteq> h"
proof -
  from assms have "h \<in> TrimWhiteSpace ` set (split TAB contents)"
    by (simp add: headers_of_def)
  from index_headers_present [OF this, of 0 Map.empty] that show thesis
    by (auto simp: headers_of_def)
qed

lemma for_each_layout:
  assumes body: "\<And>x s s'. L s = L s' \<Longrightarrow> map_sum id L (body x s) = map_sum id L (body x s')"
  shows "L s = L s' \<Longrightarrow> map_sum id L (for_each body xs s) = map_sum id L (for_each body xs s')"
proof (induction xs arbitrary: s s')
  case Nil
  then show ?case by simp
next
  case (Cons x xs)
  note same = body [OF Cons.prems, of x]
  show ?case
  proof (cases "body x s")
    case (Inl e)
    with same have "body x s' = Inl e" by (cases "body x s'") auto
    with Inl show ?thesis by simp
  next
    case (Inr t)
    with same obtain t' where t': "body x s' = Inr t'" "L t = L t'"
      by (cases "body x s'") auto
    from Cons.IH [OF t'(2)] Inr t'(1) show ?thesis by simp
  qed
qed

lemma add_binned_float_layout:
  "slot_layout s = slot_layout s' \<Longrightarrow>
   map_sum id slot_layout (add_binned_float m h s) = map_sum id slot_layout (add_binned_float m h s')"
  by (cases "m h")
     (auto simp: add_binned_float_def reset_column_def new_column_def delete_column_def Let_def
        slot_layout_def split: list.splits option.splits)

lemma add_raw_float_layout:
  "slot_layout s = slot_layout s' \<Longrightarrow>
   map_sum id slot_layout (add_raw_float m h s) = map_sum id slot_layout (add_raw_float m h s')"
  by (cases "m h")
     (auto simp: add_raw_float_def reset_column_def new_column_def delete_column_def Let_def
        slot_layout_def split: list.splits option.splits)

lemma add_string_layout:
  "slot_layout s = slot_layout s' \<Longrightarrow>
   map_sum id slot_layout (add_string m h s) = map_sum id slot_layout (add_string m h s')"
  by (cases "m h")
     (auto simp: add_string_def reset_column_def new_column_def delete_column_def Let_def
        slot_layout_def split: list.splits option.splits)

lemma SetupColumns_layout:
  assumes "slot_layout s = slot_layout s'"
  shows "map_sum id slot_layout (SetupColumns files header_file config s) =
         map_sum id slot_layout (SetupColumns files header_file config s')"
proof (cases "files header_file")
  case None
  then show ?thesis by (simp add: SetupColumns_def)
next
  case (Some contents)
  define m where "m = index_headers (split TAB contents) 0 Map.empty"
  let ?b = "\<lambda>s. for_each (add_binned_float m) (binned_float_column config) s"
  let ?r = "\<lambda>s. for_each (add_raw_float m) (raw_float_column config) s"
  let ?s = "\<lambda>s. for_each (add_string m) (string_column config) s"
  have S: "SetupColumns files header_file config t =
     (case ?b t of Inl e \<Rightarrow> Inl e | Inr s1 \<Rightarrow> (case ?r s1 of Inl e \<Rightarrow> Inl e | Inr s2 \<Rightarrow> ?s s2))" for t
    using Some unfolding SetupColumns_def m_def Let_def by simp
  have 1: "map_sum id slot_layout (?b s) = map_sum id slot_layout (?b s')"
    by (rule for_each_layout [where L = slot_layout and body = "add_binned_float m"])
       (rule add_binned_float_layout, assumption, rule assms)
  have 2: "map_sum id slot_layout (?r t) = map_sum id slot_layout (?r t')"
    if "slot_layout t = slot_layout t'" for t t'
    by (rule for_each_layout [where L = slot_layout and body = "add_raw_float m"])
       (rule add_raw_float_layout, assumption, rule that)
  have 3: "map_sum id slot_layout (?s t) = map_sum id slot_layout (?s t')"
    if "slot_layout t = slot_layout t'" for t t'
    by (rule for_each_layout [where L = slot_layout and body = "add_string m"])
       (rule add_string_layout, assumption, rule that)
  show ?thesis
  proof (cases "?b s")
    case (Inl e)
    with 1 have "?b s' = Inl e" by (cases "?b s'") auto
    with Inl show ?thesis by (simp add: S)
  next
    case b: (Inr s1)
    with 1 obtain s1' where b': "?b s' = Inr s1'" and l1: "slot_layout s1 = slot_layout s1'"
      by (cases "?b s'") auto
    show ?thesis
    proof (cases "?r s1")
      case (Inl e)
      with 2 [OF l1] have "?r s1' = Inl e" by (cases "?r s1'") auto
      with Inl b b' show ?thesis by (simp add: S)
    next
      case r: (Inr s2)
      with 2 [OF l1] obtain s2' where r': "?r s1' = Inr s2'" and l2: "slot_layout s2 = slot_layout s2'"
        by (cases "?r s1'") auto
      from 3 [OF l2] b b' r r' show ?thesis by (simp add: S)
    qed
  qed
qed

section \<open>The load pipeline\<close>

subsection \<open>Reading a trace\<close>

lemma obs_append [simp]:
  "Add_started p (tr @ tr') = Add_started p tr @ Add_started p tr'"
  "Add_finished p (tr @ tr') = Add_finished p tr @ Add_finished p tr'"
  "Finalize_started p (tr @ tr') = Finalize_started p tr + Finalize_started p tr'"
  "Finalize_finished p (tr @ tr') = Finalize_finished p tr + Finalize_finished p tr'"
  "blocks_taken (tr @ tr') = blocks_taken tr @ blocks_taken tr'"
  "loads_submitted (tr @ tr') = loads_submitted tr @ loads_submitted tr'"
  "loads_completed (tr @ tr') = loads_completed tr @ loads_completed tr'"
  by (simp_all add: Add_started_def Add_finished_def Finalize_started_def Finalize_finished_def
        blocks_taken_def loads_submitted_def loads_completed_def)

lemma obs_Nil [simp]:
  "Add_started p [] = []" "Add_finished p [] = []"
  "Finalize_started p [] = 0" "Finalize_finished p [] = 0"
  "blocks_taken [] = []" "loads_submitted [] = []" "loads_completed [] = []"
  by (simp_all add: Add_started_def Add_finished_def Finalize_started_def Finalize_finished_def
        blocks_taken_def loads_submitted_def loads_completed_def)

lemma obs_Cons [simp]:
  "Add_started p (e # tr) = concat (map (Add_slice p) (started e)) @ Add_started p tr"
  "Add_finished p (e # tr) = concat (map (Add_slice p) (finished e)) @ Add_finished p tr"
  "Finalize_started p (e # tr) = sum_list (map (Finalize_call p) (started e)) + Finalize_started p tr"
  "Finalize_finished p (e # tr) = sum_list (map (Finalize_call p) (finished e)) + Finalize_finished p tr"
  "blocks_taken (e # tr) = taken e @ blocks_taken tr"
  "loads_submitted (e # tr) = concat (map load_slot (enqueued e)) @ loads_submitted tr"
  "loads_completed (e # tr) = concat (map load_slot (finished e)) @ loads_completed tr"
  by (simp_all add: Add_started_def Add_finished_def Finalize_started_def Finalize_finished_def
        blocks_taken_def loads_submitted_def loads_completed_def)

lemma obs_Enqueued [simp]:
  "Add_started p (map Enqueued ts) = []" "Add_finished p (map Enqueued ts) = []"
  "Finalize_started p (map Enqueued ts) = 0" "Finalize_finished p (map Enqueued ts) = 0"
  "blocks_taken (map Enqueued ts) = []" "loads_completed (map Enqueued ts) = []"
  by (induction ts) simp_all


lemma Add_slice_other: "task_column t \<noteq> Some p \<Longrightarrow> Add_slice p t = []"
  by (cases t) auto

lemma Finalize_call_other: "task_column t \<noteq> Some p \<Longrightarrow> Finalize_call p t = 0"
  by (cases t) auto

lemma slices_absent:
  "Some p \<notin> task_column ` set ts \<Longrightarrow> concat (map (Add_slice p) ts) = []"
  by (induction ts) (auto simp: Add_slice_other)

lemma calls_absent:
  "Some p \<notin> task_column ` set ts \<Longrightarrow> sum_list (map (Finalize_call p) ts) = 0"
  by (induction ts) (auto simp: Finalize_call_other)

lemma slices_single:
  "distinct (map task_column ts) \<Longrightarrow> t \<in> set ts \<Longrightarrow> task_column t = Some p \<Longrightarrow>
   concat (map (Add_slice p) ts) = Add_slice p t"
proof (induction ts)
  case Nil
  then show ?case by simp
next
  case (Cons u ts)
  show ?case
  proof (cases "u = t")
    case True
    with Cons.prems have "Some p \<notin> task_column ` set ts" by auto
    with True show ?thesis by (simp add: slices_absent)
  next
    case False
    with Cons.prems have "task_column u \<noteq> Some p" "t \<in> set ts" by (auto simp: image_iff)
    with Cons show ?thesis by (simp add: Add_slice_other)
  qed
qed

lemma calls_single:
  "distinct (map task_column ts) \<Longrightarrow> t \<in> set ts \<Longrightarrow> task_column t = Some p \<Longrightarrow>
   sum_list (map (Finalize_call p) ts) = Finalize_call p t"
proof (induction ts)
  case Nil
  then show ?case by simp
next
  case (Cons u ts)
  show ?case
  proof (cases "u = t")
    case True
    with Cons.prems have "Some p \<notin> task_column ` set ts" by auto
    with True show ?thesis by (simp add: calls_absent)
  next
    case False
    with Cons.prems have "task_column u \<noteq> Some p" "t \<in> set ts" by (auto simp: image_iff)
    with Cons show ?thesis by (simp add: Finalize_call_other)
  qed
qed

lemma column_unique:
  "distinct (map task_column ts) \<Longrightarrow> t \<in> set ts \<Longrightarrow> u \<in> set ts \<Longrightarrow>
   task_column t = task_column u \<Longrightarrow> t = u"
  by (auto simp: distinct_map dest: inj_onD)

subsection \<open>The tasks of one pool work on different columns\<close>

lemma add_tasks_Inr:
  "add_tasks k sl ps = Inr ts \<Longrightarrow>
   list_all2 (\<lambda>(p, i) t. \<exists>x. sl i = Inr x \<and> t = Add k p x) ps ts"
  by (induction k sl ps arbitrary: ts rule: add_tasks.induct) (auto split: sum.splits)

lemma add_tasks_columns:
  assumes "add_tasks k sl ps = Inr ts"
  shows "map task_column ts = map Some (map fst ps)" and "list_all is_Add ts"
proof -
  from add_tasks_Inr [OF assms]
  have l: "list_all2 (\<lambda>(p, i) t. \<exists>x. sl i = Inr x \<and> t = Add k p x) ps ts" .
  then show "map task_column ts = map Some (map fst ps)"
    by (induction rule: list_all2_induct) auto
  from l show "list_all is_Add ts"
    by (induction rule: list_all2_induct) auto
qed

lemma add_tasks_member:
  assumes "add_tasks k sl ps = Inr ts" and "(p, i) \<in> set ps"
  shows "\<exists>x. sl i = Inr x \<and> Add k p x \<in> set ts"
proof -
  from add_tasks_Inr [OF assms(1)]
  have "list_all2 (\<lambda>(p, i) t. \<exists>x. sl i = Inr x \<and> t = Add k p x) ps ts" .
  from this assms(2) show ?thesis
    by (induction rule: list_all2_induct) auto
qed

lemma ProcessBlock_tasks_columns:
  assumes "ProcessBlock_tasks st b = Inr ts"
  shows "map task_column ts = map Some (columns_of st)" and "list_all is_Add ts"
proof -
  from assms obtain ts1 ts2 ts3 where
    1: "add_tasks BinnedFloatColumn (float_slice b) (binned_float_columns st) = Inr ts1" and
    2: "add_tasks RawFloatColumn (float_slice b) (raw_float_columns st) = Inr ts2" and
    3: "add_tasks StringColumn (string_slice b) (string_columns st) = Inr ts3" and
    ts: "ts = ts1 @ ts2 @ ts3"
    by (auto simp: ProcessBlock_tasks_def split: sum.splits)
  from add_tasks_columns [OF 1] add_tasks_columns [OF 2] add_tasks_columns [OF 3]
  show "map task_column ts = map Some (columns_of st)" and "list_all is_Add ts"
    by (simp_all add: ts columns_of_def)
qed

lemma Finalize_tasks_columns:
  "map task_column (Finalize_tasks st) =
     map Some (map fst (binned_float_columns st) @ map fst (string_columns st) @
               map fst (raw_float_columns st))"
  "list_all is_Finalize (Finalize_tasks st)"
  by (auto simp: Finalize_tasks_def list_all_iff)

lemma Finalize_tasks_distinct:
  "distinct (columns_of st) \<Longrightarrow> distinct (map task_column (Finalize_tasks st))"
  by (auto simp: Finalize_tasks_columns columns_of_def distinct_map inj_on_def)

lemma tasks_of_distinct:
  assumes "distinct (columns_of st)"
  shows "distinct (map task_column (tasks_of w st tsv))"
proof (cases "new_TSVBlock w tsv (float_column_indices st) (string_column_indices st)")
  case (Inl e)
  then show ?thesis by (simp add: tasks_of_def)
next
  case (Inr b)
  show ?thesis
  proof (cases "ProcessBlock_tasks st b")
    case (Inl e)
    with Inr show ?thesis by (simp add: tasks_of_def)
  next
    case (Inr ts)
    from ProcessBlock_tasks_columns(1) [OF Inr] assms
    have "distinct (map task_column ts)" by (simp add: distinct_map)
    with Inr \<open>new_TSVBlock w tsv (float_column_indices st) (string_column_indices st) = Inr b\<close>
    show ?thesis by (simp add: tasks_of_def)
  qed
qed

lemma tasks_of_Add: "list_all is_Add (tasks_of w st tsv)"
  by (auto simp: tasks_of_def ProcessBlock_tasks_columns split: sum.splits)

lemma current_tasks_distinct:
  "distinct (columns_of st) \<Longrightarrow> distinct (map task_column (current_tasks w tsvs st c))"
  by (cases c) (simp_all add: tasks_of_distinct Finalize_tasks_distinct)

lemma is_Add_no_call: "is_Add t \<Longrightarrow> Finalize_call p t = 0"
  by (cases t) auto

lemma is_Finalize_no_slice: "is_Finalize t \<Longrightarrow> Add_slice p t = []"
  by (cases t) auto

lemma Adds_no_calls: "list_all is_Add ts \<Longrightarrow> sum_list (map (Finalize_call p) ts) = 0"
  by (induction ts) (auto simp: is_Add_no_call)

lemma Finalizes_no_slices: "list_all is_Finalize ts \<Longrightarrow> concat (map (Add_slice p) ts) = []"
  by (induction ts) (auto simp: is_Finalize_no_slice)

lemma column_in: "Some p \<in> task_column ` set ts \<longleftrightarrow> (\<exists>u\<in>set ts. task_column u = Some p)"
  by force

lemma columns_remove1:
  assumes "distinct (map task_column C)" "set Q \<subseteq> set C" "distinct Q" "t \<in> set Q"
  shows "Some p \<in> task_column ` set (remove1 t Q) \<longleftrightarrow>
         Some p \<in> task_column ` set Q \<and> task_column t \<noteq> Some p"
proof -
  have s: "set (remove1 t Q) = set Q - {t}"
    using assms(3) by simp
  show ?thesis
  proof
    assume "Some p \<in> task_column ` set (remove1 t Q)"
    then obtain u where "u \<in> set (remove1 t Q)" and u3: "task_column u = Some p"
      by (metis imageE)
    then have u: "u \<in> set Q" "u \<noteq> t" "task_column u = Some p"
      by (simp_all add: s)
    with column_unique [OF assms(1), of u t] assms(2,4) have "task_column t \<noteq> Some p"
      by (metis subsetD)
    with u show "Some p \<in> task_column ` set Q \<and> task_column t \<noteq> Some p"
      unfolding column_in by blast
  next
    assume "Some p \<in> task_column ` set Q \<and> task_column t \<noteq> Some p"
    then obtain u where "u \<in> set Q" "task_column u = Some p" "u \<noteq> t"
      by (metis imageE)
    then have "u \<in> set (remove1 t Q)" "task_column u = Some p"
      by (simp_all add: s)
    then show "Some p \<in> task_column ` set (remove1 t Q)"
      unfolding column_in by blast
  qed
qed

lemma start_task_inv_calls:
  assumes pool: "inv_pool w tsvs st s" and calls: "inv_calls w tsvs st s"
    and alive: "\<not> is_dead (pc s)"
    and dc: "distinct (map task_column (current_tasks w tsvs st (pc s)))"
    and t: "t \<in> set (pool_queue s)"
  shows "inv_calls w tsvs st
           (s\<lparr>pool_queue := remove1 t (pool_queue s), pool_running := pool_running s @ [t],
              trace := trace s @ [Started t]\<rparr>)"
proof -
  let ?C = "current_tasks w tsvs st (pc s)"
  let ?Q = "pool_queue s" and ?R = "pool_running s"
  from pool alive have sub: "set ?Q \<subseteq> set ?C" "set ?R \<subseteq> set ?C"
    and d: "distinct ?Q" "distinct (?Q @ ?R)"
    by (auto simp: inv_pool_def)
  from t sub have tC: "t \<in> set ?C" by auto
  have same: "set (remove1 t ?Q @ ?R @ [t]) = set (?Q @ ?R)"
    using t d(1) by auto
  {
    fix p
    from calls alive have c:
      "Add_started p (trace s) =
         Add_expected w st (take (files_folded (length tsvs) (pc s)) tsvs) p @
         (if Some p \<in> task_column ` set ?Q then [] else concat (map (Add_slice p) ?C))"
      "Add_finished p (trace s) =
         Add_expected w st (take (files_folded (length tsvs) (pc s)) tsvs) p @
         (if Some p \<in> task_column ` set (?Q @ ?R) then [] else concat (map (Add_slice p) ?C))"
      "Finalize_started p (trace s) =
         (if Some p \<in> task_column ` set ?Q then 0 else sum_list (map (Finalize_call p) ?C))"
      "Finalize_finished p (trace s) =
         (if Some p \<in> task_column ` set (?Q @ ?R) then 0 else sum_list (map (Finalize_call p) ?C))"
      by (simp_all add: inv_calls_def)
    note rem = columns_remove1 [OF dc sub(1) d(1) t, of p]
    have "Add_started p (trace s @ [Started t]) =
         Add_expected w st (take (files_folded (length tsvs) (pc s)) tsvs) p @
         (if Some p \<in> task_column ` set (remove1 t ?Q) then [] else concat (map (Add_slice p) ?C))"
    proof (cases "task_column t = Some p")
      case True
      with t have "Some p \<in> task_column ` set ?Q" by (metis imageI)
      with True rem c(1) slices_single [OF dc tC True] show ?thesis by simp
    next
      case False
      with rem c(1) show ?thesis by (simp add: Add_slice_other)
    qed
    moreover
    have "Finalize_started p (trace s @ [Started t]) =
         (if Some p \<in> task_column ` set (remove1 t ?Q) then 0 else sum_list (map (Finalize_call p) ?C))"
    proof (cases "task_column t = Some p")
      case True
      with t have "Some p \<in> task_column ` set ?Q" by (metis imageI)
      with True rem c(3) calls_single [OF dc tC True] show ?thesis by simp
    next
      case False
      with rem c(3) show ?thesis by (simp add: Finalize_call_other)
    qed
    moreover
    have "Add_finished p (trace s @ [Started t]) =
         Add_expected w st (take (files_folded (length tsvs) (pc s)) tsvs) p @
         (if Some p \<in> task_column ` set (remove1 t ?Q @ ?R @ [t]) then []
          else concat (map (Add_slice p) ?C))"
      unfolding same using c(2) by simp
    moreover
    have "Finalize_finished p (trace s @ [Started t]) =
         (if Some p \<in> task_column ` set (remove1 t ?Q @ ?R @ [t]) then 0
          else sum_list (map (Finalize_call p) ?C))"
      unfolding same using c(4) by simp
    ultimately have
      "Add_started p (trace s @ [Started t]) =
         Add_expected w st (take (files_folded (length tsvs) (pc s)) tsvs) p @
         (if Some p \<in> task_column ` set (remove1 t ?Q) then [] else concat (map (Add_slice p) ?C)) \<and>
       Add_finished p (trace s @ [Started t]) =
         Add_expected w st (take (files_folded (length tsvs) (pc s)) tsvs) p @
         (if Some p \<in> task_column ` set (remove1 t ?Q @ ?R @ [t]) then []
          else concat (map (Add_slice p) ?C)) \<and>
       Finalize_started p (trace s @ [Started t]) =
         (if Some p \<in> task_column ` set (remove1 t ?Q) then 0 else sum_list (map (Finalize_call p) ?C)) \<and>
       Finalize_finished p (trace s @ [Started t]) =
         (if Some p \<in> task_column ` set (remove1 t ?Q @ ?R @ [t]) then 0
          else sum_list (map (Finalize_call p) ?C))"
      by blast
  }
  then show ?thesis
    unfolding inv_calls_def by simp
qed

subsection \<open>The steps of the machine, by cases\<close>

lemma main_step_cases:
  assumes "main_step w tsvs s = Some s'"
  obtains
    (submit) i where "pc s = Submitting i" "i < length tsvs" "FileExists w (tsvs ! i)"
      "s' = s\<lparr>pc := Submitting (Suc i),
               load_queue := load_queue s @ [LoadBlock (tsvs ! i) i],
               trace := trace s @ [FileExists_called i, Enqueued (LoadBlock (tsvs ! i) i)]\<rparr>"
  | (missing) i where "pc s = Submitting i" "i < length tsvs" "\<not> FileExists w (tsvs ! i)"
      "s' = s\<lparr>pc := Aborted (Configuration_error (TSV_does_not_exist (tsvs ! i))),
               trace := trace s @ [FileExists_called i]\<rparr>"
  | (submitted) i where "pc s = Submitting i" "\<not> i < length tsvs" "s' = s\<lparr>pc := Draining 0\<rparr>"
  | (take) i b ts where "pc s = Draining i" "i < length (blocks s)" "blocks s ! i = Some b"
      "ProcessBlock_tasks (this s) b = Inr ts"
      "s' = s\<lparr>pc := Folding i, blocks := (blocks s)[i := None], pool_queue := ts,
               trace := trace s @ Block_taken i # map Enqueued ts\<rparr>"
  | (misfit) i b e where "pc s = Draining i" "i < length (blocks s)" "blocks s ! i = Some b"
      "ProcessBlock_tasks (this s) b = Inl e"
      "s' = s\<lparr>pc := Aborted e, blocks := (blocks s)[i := None],
               trace := trace s @ [Block_taken i]\<rparr>"
  | (drained) i where "pc s = Draining i" "\<not> i < length (blocks s)"
      "s' = s\<lparr>pc := Finalizing, pool_queue := Finalize_tasks (this s),
               trace := trace s @ map Enqueued (Finalize_tasks (this s))\<rparr>"
  | (joined) i where "pc s = Folding i" "pool_queue s = []" "pool_running s = []"
      "s' = s\<lparr>pc := Draining (Suc i)\<rparr>"
  | (return) "pc s = Finalizing" "pool_queue s = []" "pool_running s = []"
      "load_queue s = []" "load_running s = []" "s' = s\<lparr>pc := Returned\<rparr>"
  using assms
  by (auto simp: main_step_def split: pc.splits if_splits option.splits sum.splits)

lemma step_cases:
  assumes "step w tsvs a s = Some s'"
  obtains
    (main) "a = Main" "\<not> is_dead (pc s)" "main_step w tsvs s = Some s'"
  | (start_load) t where "a = Start_load t" "\<not> is_dead (pc s)" "t \<in> set (load_queue s)"
      "s' = s\<lparr>load_queue := remove1 t (load_queue s), load_running := load_running s @ [t],
               trace := trace s @ [Started t]\<rparr>"
  | (end_load) t where "a = End_load t" "\<not> is_dead (pc s)" "t \<in> set (load_running s)"
      "s' = finish w t (s\<lparr>load_running := remove1 t (load_running s)\<rparr>)"
  | (start_task) t where "a = Start_task t" "\<not> is_dead (pc s)" "t \<in> set (pool_queue s)"
      "s' = s\<lparr>pool_queue := remove1 t (pool_queue s), pool_running := pool_running s @ [t],
               trace := trace s @ [Started t]\<rparr>"
  | (end_task) t where "a = End_task t" "\<not> is_dead (pc s)" "t \<in> set (pool_running s)"
      "s' = finish w t (s\<lparr>pool_running := remove1 t (pool_running s)\<rparr>)"
  using assms
  by (cases a) (auto simp: step_def split: if_splits)

lemma finish_column:
  "task_column t = Some p \<Longrightarrow> finish w t s = s\<lparr>trace := trace s @ [Finished t]\<rparr>"
  by (cases t) auto

lemma current_tasks_column:
  "t \<in> set (current_tasks w tsvs st c) \<Longrightarrow> \<exists>p. task_column t = Some p"
proof (cases c)
  case (Folding i)
  assume "t \<in> set (current_tasks w tsvs st c)"
  with Folding tasks_of_Add [of w st "tsvs ! i"] have "is_Add t"
    by (auto simp: list_all_iff)
  then show ?thesis by (cases t) auto
next
  case Finalizing
  assume "t \<in> set (current_tasks w tsvs st c)"
  with Finalizing Finalize_tasks_columns(2) [of st] have "is_Finalize t"
    by (auto simp: list_all_iff)
  then show ?thesis by (cases t) auto
next
  case Returned
  assume "t \<in> set (current_tasks w tsvs st c)"
  with Returned Finalize_tasks_columns(2) [of st] have "is_Finalize t"
    by (auto simp: list_all_iff)
  then show ?thesis by (cases t) auto
qed auto

lemma end_task_inv_calls:
  assumes pool: "inv_pool w tsvs st s" and calls: "inv_calls w tsvs st s"
    and alive: "\<not> is_dead (pc s)"
    and dc: "distinct (map task_column (current_tasks w tsvs st (pc s)))"
    and t: "t \<in> set (pool_running s)"
  shows "inv_calls w tsvs st (finish w t (s\<lparr>pool_running := remove1 t (pool_running s)\<rparr>))"
proof -
  let ?C = "current_tasks w tsvs st (pc s)"
  let ?Q = "pool_queue s" and ?R = "pool_running s"
  from pool alive have sub: "set (?Q @ ?R) \<subseteq> set ?C" and d: "distinct (?Q @ ?R)"
    by (auto simp: inv_pool_def)
  from t sub have tC: "t \<in> set ?C" by auto
  from t have tQR: "t \<in> set (?Q @ ?R)" by simp
  from current_tasks_column [OF tC] obtain q where q: "task_column t = Some q" by blast
  have rem: "remove1 t (?Q @ ?R) = ?Q @ remove1 t ?R"
    using t d by (auto simp: remove1_append)
  have fin: "finish w t (s\<lparr>pool_running := remove1 t ?R\<rparr>) =
             s\<lparr>pool_running := remove1 t ?R, trace := trace s @ [Finished t]\<rparr>"
    by (simp add: finish_column [OF q])
  {
    fix p
    from calls alive have c:
      "Add_started p (trace s) =
         Add_expected w st (take (files_folded (length tsvs) (pc s)) tsvs) p @
         (if Some p \<in> task_column ` set ?Q then [] else concat (map (Add_slice p) ?C))"
      "Add_finished p (trace s) =
         Add_expected w st (take (files_folded (length tsvs) (pc s)) tsvs) p @
         (if Some p \<in> task_column ` set (?Q @ ?R) then [] else concat (map (Add_slice p) ?C))"
      "Finalize_started p (trace s) =
         (if Some p \<in> task_column ` set ?Q then 0 else sum_list (map (Finalize_call p) ?C))"
      "Finalize_finished p (trace s) =
         (if Some p \<in> task_column ` set (?Q @ ?R) then 0 else sum_list (map (Finalize_call p) ?C))"
      by (simp_all add: inv_calls_def)
    note r = columns_remove1 [OF dc sub d tQR, of p, unfolded rem]
    have "Add_finished p (trace s @ [Finished t]) =
         Add_expected w st (take (files_folded (length tsvs) (pc s)) tsvs) p @
         (if Some p \<in> task_column ` set (?Q @ remove1 t ?R) then []
          else concat (map (Add_slice p) ?C))"
    proof (cases "task_column t = Some p")
      case True
      with tQR have "Some p \<in> task_column ` set (?Q @ ?R)" unfolding column_in by blast
      with True r c(2) slices_single [OF dc tC True] show ?thesis by simp
    next
      case False
      with r c(2) show ?thesis by (simp add: Add_slice_other)
    qed
    moreover
    have "Finalize_finished p (trace s @ [Finished t]) =
         (if Some p \<in> task_column ` set (?Q @ remove1 t ?R) then 0
          else sum_list (map (Finalize_call p) ?C))"
    proof (cases "task_column t = Some p")
      case True
      with tQR have "Some p \<in> task_column ` set (?Q @ ?R)" unfolding column_in by blast
      with True r c(4) calls_single [OF dc tC True] show ?thesis by simp
    next
      case False
      with r c(4) show ?thesis by (simp add: Finalize_call_other)
    qed
    moreover
    have "Add_started p (trace s @ [Finished t]) =
         Add_expected w st (take (files_folded (length tsvs) (pc s)) tsvs) p @
         (if Some p \<in> task_column ` set ?Q then [] else concat (map (Add_slice p) ?C))"
      using c(1) by simp
    moreover
    have "Finalize_started p (trace s @ [Finished t]) =
         (if Some p \<in> task_column ` set ?Q then 0 else sum_list (map (Finalize_call p) ?C))"
      using c(3) by simp
    ultimately have
      "Add_started p (trace s @ [Finished t]) =
         Add_expected w st (take (files_folded (length tsvs) (pc s)) tsvs) p @
         (if Some p \<in> task_column ` set ?Q then [] else concat (map (Add_slice p) ?C)) \<and>
       Add_finished p (trace s @ [Finished t]) =
         Add_expected w st (take (files_folded (length tsvs) (pc s)) tsvs) p @
         (if Some p \<in> task_column ` set (?Q @ remove1 t ?R) then []
          else concat (map (Add_slice p) ?C)) \<and>
       Finalize_started p (trace s @ [Finished t]) =
         (if Some p \<in> task_column ` set ?Q then 0 else sum_list (map (Finalize_call p) ?C)) \<and>
       Finalize_finished p (trace s @ [Finished t]) =
         (if Some p \<in> task_column ` set (?Q @ remove1 t ?R) then 0
          else sum_list (map (Finalize_call p) ?C))"
      by blast
  }
  then show ?thesis
    unfolding inv_calls_def fin by simp
qed

subsection \<open>The store, the blocks and the pools\<close>

lemma is_dead_simps [simp]:
  "\<not> is_dead (Submitting i)" "\<not> is_dead (Draining i)" "\<not> is_dead (Folding i)"
  "\<not> is_dead Finalizing" "\<not> is_dead Returned" "is_dead (Aborted e)"
  by (simp_all add: is_dead_def)

lemma finish_LoadBlock_cases:
  obtains (died) e where
      "new_TSVBlock w tsv (float_column_indices (this s)) (string_column_indices (this s)) = Inl e"
      "finish w (LoadBlock tsv i) s = s\<lparr>pc := Aborted e\<rparr>"
  | (installed) b where
      "new_TSVBlock w tsv (float_column_indices (this s)) (string_column_indices (this s)) = Inr b"
      "finish w (LoadBlock tsv i) s =
         s\<lparr>blocks := (blocks s)[i := Some b], trace := trace s @ [Finished (LoadBlock tsv i)]\<rparr>"
  by (cases "new_TSVBlock w tsv (float_column_indices (this s)) (string_column_indices (this s))")
     auto

lemma pool_task_column:
  assumes "inv_pool w tsvs st s" "\<not> is_dead (pc s)" "t \<in> set (pool_queue s @ pool_running s)"
  obtains p where "task_column t = Some p"
proof -
  from assms have "t \<in> set (current_tasks w tsvs st (pc s))"
    by (auto simp: inv_pool_def)
  from current_tasks_column [OF this] that show thesis by blast
qed

lemma inv_static_step:
  assumes st: "inv_static w tsvs st s" and pool: "inv_pool w tsvs st s"
    and step: "step w tsvs a s = Some s'"
  shows "inv_static w tsvs st s'"
  using step
proof (cases rule: step_cases)
  case main
  from main(3) show ?thesis
  proof (cases rule: main_step_cases)
    case (take i b ts)
    with st show ?thesis by (auto simp: inv_static_def nth_list_update)
  next
    case (misfit i b e)
    with st show ?thesis by (auto simp: inv_static_def nth_list_update)
  qed (use st in \<open>auto simp: inv_static_def\<close>)
next
  case (start_load t)
  with st show ?thesis
    by (auto simp: inv_static_def dest: set_remove1_subset [THEN subsetD])
next
  case (end_load t)
  from st end_load(3) obtain i where i: "i < length tsvs" "t = LoadBlock (tsvs ! i) i"
    unfolding inv_static_def by blast
  let ?s = "s\<lparr>load_running := remove1 t (load_running s)\<rparr>"
  have s1: "inv_static w tsvs st ?s"
    using st by (auto simp: inv_static_def dest: set_remove1_subset [THEN subsetD])
  show ?thesis
  proof (cases rule: finish_LoadBlock_cases [of w "tsvs ! i" ?s i])
    case (died e)
    with s1 end_load(4) i show ?thesis by (auto simp: inv_static_def)
  next
    case (installed b)
    from s1 have "this ?s = st" by (simp add: inv_static_def)
    with installed(1) have b: "new_TSVBlock w (tsvs ! i) (float_column_indices st) (string_column_indices st) = Inr b"
      by simp
    from s1 b i(1) have "inv_static w tsvs st
       (?s\<lparr>blocks := (blocks ?s)[i := Some b], trace := trace ?s @ [Finished (LoadBlock (tsvs ! i) i)]\<rparr>)"
      by (auto simp: inv_static_def nth_list_update)
    with installed(2) end_load(4) i(2) show ?thesis by simp
  qed
next
  case (start_task t)
  with st show ?thesis by (auto simp: inv_static_def)
next
  case (end_task t)
  from pool_task_column [OF pool end_task(2), of t] end_task(3)
  obtain p where "task_column t = Some p" by auto
  with end_task st show ?thesis by (auto simp: inv_static_def finish_column)
qed

lemma tasks_of_eq:
  "new_TSVBlock w tsv (float_column_indices st) (string_column_indices st) = Inr b \<Longrightarrow>
   ProcessBlock_tasks st b = Inr ts \<Longrightarrow> tasks_of w st tsv = ts \<and> folds w st tsv"
  by (simp add: tasks_of_def folds_def)

lemma distinct_columns_tasks: "distinct (map task_column ts) \<Longrightarrow> distinct ts"
  by (rule distinct_map [THEN iffD1, THEN conjunct1])

lemma inv_pool_step:
  assumes dc: "distinct (columns_of st)"
    and st: "inv_static w tsvs st s" and pool: "inv_pool w tsvs st s"
    and step: "step w tsvs a s = Some s'"
  shows "inv_pool w tsvs st s'"
  using step
proof (cases rule: step_cases)
  case main
  from main(3) show ?thesis
  proof (cases rule: main_step_cases)
    case (submit i)
    with pool show ?thesis by (auto simp: inv_pool_def)
  next
    case (missing i)
    then show ?thesis by (simp add: inv_pool_def)
  next
    case (submitted i)
    with pool show ?thesis by (auto simp: inv_pool_def)
  next
    case (take i b ts)
    from st take have i: "i < length tsvs" and thisst: "this s = st"
      by (auto simp: inv_static_def)
    with st take have b: "new_TSVBlock w (tsvs ! i) (float_column_indices st) (string_column_indices st) = Inr b"
      by (auto simp: inv_static_def)
    from tasks_of_eq [OF b] take(4) thisst
    have ts: "tasks_of w st (tsvs ! i) = ts" "folds w st (tsvs ! i)" by auto
    from tasks_of_distinct [OF dc, of w "tsvs ! i"] ts(1) have "distinct ts"
      by (auto dest: distinct_columns_tasks)
    with pool take i ts show ?thesis by (auto simp: inv_pool_def)
  next
    case (misfit i b e)
    then show ?thesis by (simp add: inv_pool_def)
  next
    case (drained i)
    from st have thisst: "this s = st" and len: "length (blocks s) = length tsvs"
      by (auto simp: inv_static_def)
    from Finalize_tasks_distinct [OF dc] have "distinct (Finalize_tasks st)"
      by (rule distinct_columns_tasks)
    with pool drained thisst len show ?thesis by (auto simp: inv_pool_def)
  next
    case (joined i)
    with pool show ?thesis by (auto simp: inv_pool_def less_Suc_eq)
  next
    case return
    with pool show ?thesis by (auto simp: inv_pool_def)
  qed
next
  case (start_load t)
  with pool show ?thesis by (simp add: inv_pool_def)
next
  case (end_load t)
  from st end_load(3) obtain i where i: "t = LoadBlock (tsvs ! i) i"
    unfolding inv_static_def by blast
  let ?s = "s\<lparr>load_running := remove1 t (load_running s)\<rparr>"
  show ?thesis
  proof (cases rule: finish_LoadBlock_cases [of w "tsvs ! i" ?s i])
    case (died e)
    with end_load(4) i show ?thesis by (simp add: inv_pool_def)
  next
    case (installed b)
    with end_load(4) i pool show ?thesis by (simp add: inv_pool_def)
  qed
next
  case (start_task t)
  with pool show ?thesis by (auto simp: inv_pool_def)
next
  case (end_task t)
  from pool_task_column [OF pool end_task(2), of t] end_task(3)
  obtain p where "task_column t = Some p" by auto
  with end_task pool show ?thesis
    by (auto simp: inv_pool_def finish_column dest: set_remove1_subset [THEN subsetD])
qed

subsection \<open>The calls made on every column\<close>

lemma Add_expected_append [simp]:
  "Add_expected w st (xs @ ys) p = Add_expected w st xs p @ Add_expected w st ys p"
  by (simp add: Add_expected_def)

lemma Add_expected_simps [simp]:
  "Add_expected w st [] p = []"
  "Add_expected w st [tsv] p = concat (map (Add_slice p) (tasks_of w st tsv))"
  by (simp_all add: Add_expected_def)

lemma inv_calls_unfold:
  assumes "inv_calls w tsvs st s" "\<not> is_dead (pc s)"
  shows "Add_started p (trace s) =
           Add_expected w st (take (files_folded (length tsvs) (pc s)) tsvs) p @
           (if Some p \<in> task_column ` set (pool_queue s) then []
            else concat (map (Add_slice p) (current_tasks w tsvs st (pc s))))"
    and "Add_finished p (trace s) =
           Add_expected w st (take (files_folded (length tsvs) (pc s)) tsvs) p @
           (if Some p \<in> task_column ` set (pool_queue s @ pool_running s) then []
            else concat (map (Add_slice p) (current_tasks w tsvs st (pc s))))"
    and "Finalize_started p (trace s) =
           (if Some p \<in> task_column ` set (pool_queue s) then 0
            else sum_list (map (Finalize_call p) (current_tasks w tsvs st (pc s))))"
    and "Finalize_finished p (trace s) =
           (if Some p \<in> task_column ` set (pool_queue s @ pool_running s) then 0
            else sum_list (map (Finalize_call p) (current_tasks w tsvs st (pc s))))"
  using assms by (simp_all add: inv_calls_def)

lemma pool_empty:
  assumes "inv_pool w tsvs st s" "current_tasks w tsvs st (pc s) = []" "\<not> is_dead (pc s)"
  shows "pool_queue s = []" "pool_running s = []"
  using assms by (auto simp: inv_pool_def)

lemma inv_calls_main:
  fixes w :: "'f world"
  assumes dc: "distinct (columns_of st)"
    and st: "inv_static w tsvs st s" and pool: "inv_pool w tsvs st s"
    and calls: "inv_calls w tsvs st s"
    and alive: "\<not> is_dead (pc s)"
    and step: "main_step w tsvs s = Some s'"
  shows "inv_calls w tsvs st s'"
  using step
proof (cases rule: main_step_cases)
  case (submit i)
  from pool_empty [OF pool _ alive] submit(1)
  have e: "pool_queue s = []" "pool_running s = []" by simp_all
  from inv_calls_unfold [OF calls alive] submit e show ?thesis
    by (simp add: inv_calls_def)
next
  case (missing i)
  then show ?thesis by (simp add: inv_calls_def)
next
  case (submitted i)
  from pool_empty [OF pool _ alive] submitted(1)
  have e: "pool_queue s = []" "pool_running s = []" by simp_all
  from inv_calls_unfold [OF calls alive] submitted e show ?thesis
    by (simp add: inv_calls_def)
next
  case (take i b ts)
  from pool_empty [OF pool _ alive] take(1)
  have e: "pool_queue s = []" "pool_running s = []" by simp_all
  from st take have i: "i < length tsvs" and thisst: "this s = st"
    by (auto simp: inv_static_def)
  with st take have b: "new_TSVBlock w (tsvs ! i) (float_column_indices st) (string_column_indices st) = Inr b"
    by (auto simp: inv_static_def)
  from tasks_of_eq [OF b] take(4) thisst
  have ts: "tasks_of w st (tsvs ! i) = ts" by auto
  have adds: "list_all is_Add ts"
    using tasks_of_Add [of w st "tsvs ! i"] ts by simp
  {
    fix p
    note c = inv_calls_unfold [OF calls alive, of p]
    have "(if Some p \<in> task_column ` set ts then [] else concat (map (Add_slice p) ts)) = []"
      using slices_absent [of p ts] by auto
    moreover have "(if Some p \<in> task_column ` set ts then 0 else sum_list (map (Finalize_call p) ts)) = 0"
      using calls_absent [of p ts] by auto
    ultimately have
      "Add_started p (trace s) = Add_expected w st (take i tsvs) p @
         (if Some p \<in> task_column ` set ts then [] else concat (map (Add_slice p) ts))"
      "Add_finished p (trace s) = Add_expected w st (take i tsvs) p @
         (if Some p \<in> task_column ` set ts then [] else concat (map (Add_slice p) ts))"
      "Finalize_started p (trace s) =
         (if Some p \<in> task_column ` set ts then 0 else sum_list (map (Finalize_call p) ts))"
      "Finalize_finished p (trace s) =
         (if Some p \<in> task_column ` set ts then 0 else sum_list (map (Finalize_call p) ts))"
      using c take(1) e by simp_all
  }
  with take(1,5) e ts show ?thesis
    by (simp add: inv_calls_def)
next
  case (misfit i b e)
  then show ?thesis by (simp add: inv_calls_def)
next
  case (drained i)
  from pool_empty [OF pool _ alive] drained(1)
  have e: "pool_queue s = []" "pool_running s = []" by simp_all
  from st have thisst: "this s = st" and len: "length (blocks s) = length tsvs"
    by (auto simp: inv_static_def)
  from pool drained(1) alive have "i \<le> length tsvs" by (simp add: inv_pool_def)
  with drained(2) len have i: "take i tsvs = tsvs" by simp
  let ?F = "Finalize_tasks st :: 'f task list"
  {
    fix p
    note c = inv_calls_unfold [OF calls alive, of p]
    have "(if Some p \<in> task_column ` set ?F then [] else concat (map (Add_slice p) ?F)) = []"
      using slices_absent [of p ?F] by auto
    moreover have "(if Some p \<in> task_column ` set ?F then 0 else sum_list (map (Finalize_call p) ?F)) = 0"
      using calls_absent [of p ?F] by auto
    ultimately have
      "Add_started p (trace s) = Add_expected w st tsvs p @
         (if Some p \<in> task_column ` set ?F then [] else concat (map (Add_slice p) ?F))"
      "Add_finished p (trace s) = Add_expected w st tsvs p @
         (if Some p \<in> task_column ` set ?F then [] else concat (map (Add_slice p) ?F))"
      "Finalize_started p (trace s) =
         (if Some p \<in> task_column ` set ?F then 0 else sum_list (map (Finalize_call p) ?F))"
      "Finalize_finished p (trace s) =
         (if Some p \<in> task_column ` set ?F then 0 else sum_list (map (Finalize_call p) ?F))"
      using c drained(1) e i by simp_all
  }
  with drained(1,3) e thisst show ?thesis
    by (simp add: inv_calls_def)
next
  case (joined i)
  from pool joined(1) alive have i: "i < length tsvs" by (simp add: inv_pool_def)
  note adds = Adds_no_calls [OF tasks_of_Add [of w st "tsvs ! i"]]
  from inv_calls_unfold [OF calls alive] joined i adds show ?thesis
    by (simp add: inv_calls_def take_Suc_conv_app_nth)
next
  case return
  from inv_calls_unfold [OF calls alive] return show ?thesis
    by (simp add: inv_calls_def)
qed

lemma inv_calls_step:
  assumes dc: "distinct (columns_of st)"
    and st: "inv_static w tsvs st s" and pool: "inv_pool w tsvs st s"
    and calls: "inv_calls w tsvs st s"
    and step: "step w tsvs a s = Some s'"
  shows "inv_calls w tsvs st s'"
  using step
proof (cases rule: step_cases)
  case main
  from inv_calls_main [OF dc st pool calls main(2,3)] show ?thesis .
next
  case (start_load t)
  from st start_load(3) obtain i where i: "t = LoadBlock (tsvs ! i) i"
    unfolding inv_static_def by blast
  from inv_calls_unfold [OF calls start_load(2)] start_load i show ?thesis
    by (simp add: inv_calls_def)
next
  case (end_load t)
  from st end_load(3) obtain i where i: "t = LoadBlock (tsvs ! i) i"
    unfolding inv_static_def by blast
  let ?s = "s\<lparr>load_running := remove1 t (load_running s)\<rparr>"
  show ?thesis
  proof (cases rule: finish_LoadBlock_cases [of w "tsvs ! i" ?s i])
    case (died e)
    with end_load(4) i show ?thesis by (simp add: inv_calls_def)
  next
    case (installed b)
    with inv_calls_unfold [OF calls end_load(2)] end_load i show ?thesis
      by (simp add: inv_calls_def)
  qed
next
  case (start_task t)
  from start_task_inv_calls [OF pool calls start_task(2) current_tasks_distinct [OF dc] start_task(3)]
    start_task(4)
  show ?thesis by simp
next
  case (end_task t)
  from end_task_inv_calls [OF pool calls end_task(2) current_tasks_distinct [OF dc] end_task(3)]
    end_task(4)
  show ?thesis by simp
qed

lemma inv_step:
  "distinct (columns_of st) \<Longrightarrow> inv w tsvs st s \<Longrightarrow> step w tsvs a s = Some s' \<Longrightarrow>
   inv w tsvs st s'"
  unfolding inv_def using inv_static_step inv_pool_step inv_calls_step by blast

lemma inv_run:
  "distinct (columns_of st) \<Longrightarrow> inv w tsvs st s \<Longrightarrow> run w tsvs sched s = Some s' \<Longrightarrow>
   inv w tsvs st s'"
  by (induction sched arbitrary: s) (auto split: option.splits dest: inv_step)

lemma inv_LoadTSVs:
  assumes "SetupColumns (fs w) header_file config (new_TSVDataStore n) = Inr st"
  shows "inv w tsvs st (LoadTSVs w header_file tsvs config n)"
  using assms
  by (simp add: LoadTSVs_def inv_def inv_static_def inv_pool_def inv_calls_def)

subsection \<open>The two phases and the order of the blocks\<close>

lemma no_Add_obs:
  "list_all (\<lambda>e. \<not> Add_event e) es \<Longrightarrow> Add_started p es = [] \<and> Add_finished p es = []"
proof (induction es)
  case Nil
  then show ?case by simp
next
  case (Cons e es)
  then have "\<not> Add_event e" by simp
  then have "concat (map (Add_slice p) (started e)) = [] \<and> concat (map (Add_slice p) (finished e)) = []"
    by (cases e) (auto simp: is_Finalize_no_slice elim: is_Add.elims)
  with Cons show ?case by simp
qed

lemma no_Add_after_Finalize_append:
  "no_Add_after_Finalize tr \<Longrightarrow> list_all (\<lambda>e. \<not> Add_event e) es \<Longrightarrow>
   no_Add_after_Finalize (tr @ es)"
  by (auto simp: no_Add_after_Finalize_def dropWhile_append list_all_iff
           dest: set_dropWhileD)

lemma takeWhile_all: "list_all P xs \<Longrightarrow> takeWhile P xs = xs"
  by (induction xs) auto

lemma dropWhile_all: "list_all P xs \<Longrightarrow> dropWhile P xs = []"
  by (induction xs) auto

lemma Add_not_Finalize: "is_Add t \<Longrightarrow> \<not> is_Finalize t"
  by (cases t) auto

lemma no_Finalize_no_Add_after:
  "list_all (\<lambda>e. \<not> Finalize_event e) tr \<Longrightarrow> no_Add_after_Finalize tr"
  by (simp add: no_Add_after_Finalize_def dropWhile_all)

lemma Adds_returned_append:
  assumes "Adds_returned_before_Finalize p tr" "list_all (\<lambda>e. \<not> Add_event e) es"
  shows "Adds_returned_before_Finalize p (tr @ es)"
proof -
  let ?P = "\<lambda>e. \<not> Finalize_event e"
  have "list_all (\<lambda>e. \<not> Add_event e) (takeWhile ?P es)"
    using assms(2) by (auto simp: list_all_iff dest: set_takeWhileD)
  from no_Add_obs [OF this, of p]
  have es: "Add_started p (takeWhile ?P es) = []" "Add_finished p (takeWhile ?P es) = []"
    by simp_all
  have "Add_started p (takeWhile ?P (tr @ es)) = Add_started p (takeWhile ?P tr) \<and>
        Add_finished p (takeWhile ?P (tr @ es)) = Add_finished p (takeWhile ?P tr)"
  proof (cases "list_all ?P tr")
    case True
    then have a: "takeWhile ?P (tr @ es) = tr @ takeWhile ?P es"
      by (simp add: list_all_iff)
    show ?thesis unfolding a takeWhile_all [OF True] using es by simp
  next
    case False
    then obtain x where "x \<in> set tr" "\<not> ?P x"
      by (auto simp: list_all_iff)
    then have "takeWhile ?P (tr @ es) = takeWhile ?P tr"
      by (rule takeWhile_append1)
    then show ?thesis by simp
  qed
  with assms(1) show ?thesis by (simp add: Adds_returned_before_Finalize_def)
qed

lemma Adds_returned_no_Finalize:
  assumes "list_all (\<lambda>e. \<not> Finalize_event e) tr" "Add_started p tr = Add_finished p tr"
  shows "Adds_returned_before_Finalize p tr"
proof -
  from assms(1) have tw: "takeWhile (\<lambda>e. \<not> Finalize_event e) tr = tr"
    by (rule takeWhile_all)
  show ?thesis unfolding Adds_returned_before_Finalize_def tw by (rule assms(2))
qed

lemma pool_task_kind:
  assumes "inv_pool w tsvs st s" "\<not> is_dead (pc s)" "t \<in> set (pool_queue s @ pool_running s)"
  shows "(is_Add t \<longrightarrow> (\<exists>i. pc s = Folding i)) \<and> (is_Finalize t \<longrightarrow> pc s = Finalizing)"
proof -
  from assms have t: "t \<in> set (current_tasks w tsvs st (pc s))"
    and r: "pc s = Returned \<longrightarrow> pool_queue s = [] \<and> pool_running s = []"
    by (auto simp: inv_pool_def)
  show ?thesis
  proof (cases "pc s")
    case (Folding i)
    with t tasks_of_Add [of w st "tsvs ! i"] have "is_Add t" by (auto simp: list_all_iff)
    with Folding show ?thesis by (cases t) auto
  next
    case Finalizing
    with t Finalize_tasks_columns(2) [of st] have "is_Finalize t" by (auto simp: list_all_iff)
    with Finalizing show ?thesis by (cases t) auto
  next
    case Returned
    with r assms(3) show ?thesis by simp
  qed (use t in auto)
qed

lemma step_trace:
  assumes st: "inv_static w tsvs st s" and pool: "inv_pool w tsvs st s"
    and step: "step w tsvs a s = Some s'"
  shows "\<exists>es. trace s' = trace s @ es \<and>
           (\<forall>e\<in>set es. Add_event e \<longrightarrow> (\<exists>i. pc s = Folding i)) \<and>
           (\<forall>e\<in>set es. Finalize_event e \<longrightarrow>
              pc s = Finalizing \<or> ((\<exists>i. pc s = Draining i) \<and> pc s' = Finalizing))"
  using step
proof (cases rule: step_cases)
  case main
  from main(3) show ?thesis
  proof (cases rule: main_step_cases)
    case (take i b ts)
    from st take have i: "i < length tsvs" and thisst: "this s = st"
      by (auto simp: inv_static_def)
    with st take have b: "new_TSVBlock w (tsvs ! i) (float_column_indices st) (string_column_indices st) = Inr b"
      by (auto simp: inv_static_def)
    from tasks_of_eq [OF b] take(4) thisst
    have ts: "tasks_of w st (tsvs ! i) = ts" by auto
    have "\<forall>t\<in>set ts. \<not> is_Finalize t"
      using tasks_of_Add [of w st "tsvs ! i"] ts
      by (auto simp: list_all_iff dest: Add_not_Finalize)
    with take show ?thesis by auto
  qed auto
next
  case (start_load t)
  from st start_load(3) obtain i where i: "t = LoadBlock (tsvs ! i) i"
    unfolding inv_static_def by blast
  with start_load show ?thesis by simp
next
  case (end_load t)
  from st end_load(3) obtain i where i: "t = LoadBlock (tsvs ! i) i"
    unfolding inv_static_def by blast
  let ?s = "s\<lparr>load_running := remove1 t (load_running s)\<rparr>"
  show ?thesis
  proof (cases rule: finish_LoadBlock_cases [of w "tsvs ! i" ?s i])
    case (died e)
    with end_load(4) i show ?thesis by simp
  next
    case (installed b)
    with end_load(4) i show ?thesis by simp
  qed
next
  case (start_task t)
  from pool_task_kind [OF pool start_task(2), of t] start_task show ?thesis by simp
next
  case (end_task t)
  from pool_task_column [OF pool end_task(2), of t] end_task(3)
  obtain p where "task_column t = Some p" by auto
  with pool_task_kind [OF pool end_task(2), of t] end_task show ?thesis
    by (simp add: finish_column)
qed

lemma step_pc:
  assumes "step w tsvs a s = Some s'"
  shows "pc s' = pc s \<or> is_dead (pc s') \<or>
         (case pc s of
            Submitting i \<Rightarrow> pc s' = Submitting (Suc i) \<or> pc s' = Draining 0
          | Draining i \<Rightarrow> pc s' = Folding i \<or> pc s' = Finalizing
          | Folding i \<Rightarrow> pc s' = Draining (Suc i)
          | Finalizing \<Rightarrow> pc s' = Returned
          | Returned \<Rightarrow> False
          | Aborted e \<Rightarrow> False)"
  using assms
proof (cases rule: step_cases)
  case main
  from main(3) show ?thesis by (cases rule: main_step_cases) auto
next
  case (end_load t)
  then show ?thesis
    by (cases t) (auto split: sum.splits)
next
  case (end_task t)
  then show ?thesis
    by (cases t) (auto split: sum.splits)
qed auto

lemma inv_order_step:
  assumes st: "inv_static w tsvs st s" and pool: "inv_pool w tsvs st s"
    and calls: "inv_calls w tsvs st s" and ord: "inv_order s"
    and step: "step w tsvs a s = Some s'"
  shows "inv_order s'"
proof -
  from step_trace [OF st pool step] obtain es where
    tr: "trace s' = trace s @ es" and
    adds: "\<forall>e\<in>set es. Add_event e \<longrightarrow> (\<exists>i. pc s = Folding i)" and
    fins: "\<forall>e\<in>set es. Finalize_event e \<longrightarrow>
              pc s = Finalizing \<or> ((\<exists>i. pc s = Draining i) \<and> pc s' = Finalizing)"
    by blast
  from step have alive: "\<not> is_dead (pc s)"
    by (auto simp: step_def split: if_splits)
  note pcs = step_pc [OF step]
  show ?thesis
  proof (cases "before_Finalize (pc s)")
    case True
    with ord have nf: "list_all (\<lambda>e. \<not> Finalize_event e) (trace s)"
      by (simp add: inv_order_def)
    show ?thesis
    proof (cases "pc s' = Finalizing")
      case False
      with fins True have "list_all (\<lambda>e. \<not> Finalize_event e) es"
        by (auto simp: list_all_iff)
      with nf have nf': "list_all (\<lambda>e. \<not> Finalize_event e) (trace s')"
        by (simp add: tr)
      from pcs True False have "pc s' \<noteq> Returned"
        by (cases "pc s") (auto simp: is_dead_def)
      with nf' no_Finalize_no_Add_after [OF nf'] False show ?thesis
        by (simp add: inv_order_def)
    next
      case Fin: True
      with pcs True obtain i where i: "pc s = Draining i"
        by (cases "pc s") (auto simp: is_dead_def)
      with adds have na: "list_all (\<lambda>e. \<not> Add_event e) es"
        by (auto simp: list_all_iff)
      from pool_empty [OF pool _ alive] i
      have e: "pool_queue s = []" "pool_running s = []" by simp_all
      have "Adds_returned_before_Finalize p (trace s')" for p
      proof -
        from inv_calls_unfold(1,2) [OF calls alive, of p] e
        have "Add_started p (trace s) = Add_finished p (trace s)" by simp
        from Adds_returned_append [OF Adds_returned_no_Finalize [OF nf this] na]
        show ?thesis by (simp add: tr)
      qed
      with Fin no_Add_after_Finalize_append [OF no_Finalize_no_Add_after [OF nf] na]
      show ?thesis by (simp add: inv_order_def tr)
    qed
  next
    case False
    with alive have pc: "pc s = Finalizing \<or> pc s = Returned"
      by (cases "pc s") auto
    with adds have na: "list_all (\<lambda>e. \<not> Add_event e) es"
      by (auto simp: list_all_iff)
    from ord have 1: "no_Add_after_Finalize (trace s)"
      and 2: "\<forall>p. Adds_returned_before_Finalize p (trace s)"
      using pc by (auto simp: inv_order_def)
    from pcs pc have "\<not> before_Finalize (pc s')"
      by (cases "pc s'") (auto simp: is_dead_def)
    with no_Add_after_Finalize_append [OF 1 na] 2 na show ?thesis
      by (auto simp: inv_order_def tr intro: Adds_returned_append)
  qed
qed

lemma inv_taken_step:
  assumes st: "inv_static w tsvs st s" and pool: "inv_pool w tsvs st s"
    and tk: "inv_taken tsvs s"
    and step: "step w tsvs a s = Some s'"
  shows "inv_taken tsvs s'"
  using step
proof (cases rule: step_cases)
  case main
  from main(3) show ?thesis
  proof (cases rule: main_step_cases)
    case (drained i)
    from st have len: "length (blocks s) = length tsvs"
      by (auto simp: inv_static_def)
    from pool drained(1) main(2) have "i \<le> length tsvs" by (simp add: inv_pool_def)
    with drained(2) len have "i = length tsvs" by simp
    with tk drained show ?thesis by (auto simp: inv_taken_def)
  next
    case (missing i)
    with tk show ?thesis by (auto simp: inv_taken_def intro: exI [of _ 0])
  next
    case (misfit i b e)
    with tk show ?thesis by (auto simp: inv_taken_def intro: exI [of _ "Suc i"])
  qed (use tk in \<open>auto simp: inv_taken_def\<close>)
next
  case (start_load t)
  with tk show ?thesis by (auto simp: inv_taken_def)
next
  case (end_load t)
  with tk show ?thesis
    by (cases t) (auto simp: inv_taken_def split: sum.splits)
next
  case (start_task t)
  with tk show ?thesis by (auto simp: inv_taken_def)
next
  case (end_task t)
  with tk show ?thesis
    by (cases t) (auto simp: inv_taken_def split: sum.splits)
qed

subsection \<open>Parse tasks submitted\<close>

lemma loads_submitted_Enqueued_Add:
  "list_all is_Add ts \<Longrightarrow> loads_submitted (map Enqueued ts) = []"
  by (induction ts) (auto elim: is_Add.elims)

lemma loads_submitted_Enqueued_Finalize:
  "list_all is_Finalize ts \<Longrightarrow> loads_submitted (map Enqueued ts) = []"
  by (induction ts) (auto elim: is_Finalize.elims)

lemma inv_submitted_step:
  assumes st: "inv_static w tsvs st s" and pool: "inv_pool w tsvs st s"
    and sub: "inv_submitted tsvs s"
    and step: "step w tsvs a s = Some s'"
  shows "inv_submitted tsvs s'"
  using step
proof (cases rule: step_cases)
  case main
  from main(3) show ?thesis
  proof (cases rule: main_step_cases)
    case (submit i)
    with sub show ?thesis
      by (auto simp: inv_submitted_def intro!: exI [of _ "Suc i"])
  next
    case (take i b ts)
    from st take have i: "i < length tsvs" and thisst: "this s = st"
      by (auto simp: inv_static_def)
    with st take have b: "new_TSVBlock w (tsvs ! i) (float_column_indices st) (string_column_indices st) = Inr b"
      by (auto simp: inv_static_def)
    from tasks_of_eq [OF b] take(4) thisst
    have ts: "tasks_of w st (tsvs ! i) = ts" by auto
    with tasks_of_Add [of w st "tsvs ! i"] have "loads_submitted (map Enqueued ts) = []"
      by (simp add: loads_submitted_Enqueued_Add)
    with sub take show ?thesis by (auto simp: inv_submitted_def)
  next
    case (drained i)
    have "loads_submitted (map Enqueued (Finalize_tasks (this s) :: 'a task list)) = []"
      by (rule loads_submitted_Enqueued_Finalize) (rule Finalize_tasks_columns)
    with sub drained show ?thesis by (auto simp: inv_submitted_def)
  next
    case (missing i)
    with sub show ?thesis
      by (auto simp: inv_submitted_def intro!: exI [of _ i])
  qed (use sub in \<open>auto simp: inv_submitted_def\<close>)
next
  case (start_load t)
  with sub show ?thesis by (auto simp: inv_submitted_def)
next
  case (end_load t)
  with sub show ?thesis
    by (cases t) (auto simp: inv_submitted_def split: sum.splits)
next
  case (start_task t)
  with sub show ?thesis by (auto simp: inv_submitted_def)
next
  case (end_task t)
  with sub show ?thesis
    by (cases t) (auto simp: inv_submitted_def split: sum.splits)
qed

subsection \<open>Every state a schedule reaches\<close>

lemma Inv_step:
  "distinct (columns_of st) \<Longrightarrow> Inv w tsvs st s \<Longrightarrow> step w tsvs a s = Some s' \<Longrightarrow>
   Inv w tsvs st s'"
proof -
  assume dc: "distinct (columns_of st)" and I: "Inv w tsvs st s"
    and step: "step w tsvs a s = Some s'"
  from I have st: "inv_static w tsvs st s" and pool: "inv_pool w tsvs st s"
    and calls: "inv_calls w tsvs st s" and ord: "inv_order s" and tk: "inv_taken tsvs s"
    and sub: "inv_submitted tsvs s"
    by (simp_all add: Inv_def inv_def)
  from inv_static_step [OF st pool step] inv_pool_step [OF dc st pool step]
    inv_calls_step [OF dc st pool calls step] inv_order_step [OF st pool calls ord step]
    inv_taken_step [OF st pool tk step] inv_submitted_step [OF st pool sub step]
  show ?thesis by (simp add: Inv_def inv_def)
qed

lemma Inv_run:
  "distinct (columns_of st) \<Longrightarrow> Inv w tsvs st s \<Longrightarrow> run w tsvs sched s = Some s' \<Longrightarrow>
   Inv w tsvs st s'"
  by (induction sched arbitrary: s) (auto split: option.splits dest: Inv_step)

lemma Inv_LoadTSVs:
  assumes "SetupColumns (fs w) header_file config (new_TSVDataStore n) = Inr st"
  shows "Inv w tsvs st (LoadTSVs w header_file tsvs config n)"
  using assms inv_LoadTSVs [OF assms, of tsvs]
  by (simp add: Inv_def inv_order_def inv_taken_def inv_submitted_def LoadTSVs_def
        no_Add_after_Finalize_def)

lemma LoadTSVs_run:
  assumes "SetupColumns (fs w) header_file config (new_TSVDataStore n) = Inr st"
    and "run w tsvs sched (LoadTSVs w header_file tsvs config n) = Some s"
    and "distinct (configured config)"
  shows "Inv w tsvs st s"
  using Inv_run [OF SetupColumns_distinct [OF assms(1,3)] Inv_LoadTSVs [OF assms(1)] assms(2)] .

subsection \<open>The calls at the return\<close>


lemma Finalize_once:
  assumes "distinct (columns_of st)" "p \<in> set (columns_of st)"
  shows "sum_list (map (Finalize_call p) (Finalize_tasks st :: 'f task list)) = 1"
proof -
  from assms(2) consider
      (binned) i where "(p, i) \<in> set (binned_float_columns st)"
    | (raw) i where "(p, i) \<in> set (raw_float_columns st)"
    | (string) i where "(p, i) \<in> set (string_columns st)"
    by (auto simp: columns_of_def)
  then obtain k where "(Finalize k p :: 'f task) \<in> set (Finalize_tasks st)"
  proof cases
    case binned
    then have "(Finalize BinnedFloatColumn p :: 'f task) \<in> set (Finalize_tasks st)"
      by (force simp: Finalize_tasks_def)
    with that show ?thesis .
  next
    case raw
    then have "(Finalize RawFloatColumn p :: 'f task) \<in> set (Finalize_tasks st)"
      by (force simp: Finalize_tasks_def)
    with that show ?thesis .
  next
    case string
    then have "(Finalize StringColumn p :: 'f task) \<in> set (Finalize_tasks st)"
      by (force simp: Finalize_tasks_def)
    with that show ?thesis .
  qed
  from calls_single [OF Finalize_tasks_distinct [OF assms(1)] this] show ?thesis by simp
qed

lemma Finalize_never:
  assumes "p \<notin> set (columns_of st)"
  shows "sum_list (map (Finalize_call p) (Finalize_tasks st :: 'f task list)) = 0"
proof -
  from assms have "Some p \<notin> task_column ` set (Finalize_tasks st :: 'f task list)"
    by (auto simp: columns_of_def Finalize_tasks_def image_iff)
  then show ?thesis by (rule calls_absent)
qed

lemma Returned_calls:
  fixes w :: "'f world"
  assumes "inv w tsvs st s" "pc s = Returned"
  shows "Add_started p (trace s) = Add_expected w st tsvs p"
    and "Add_finished p (trace s) = Add_expected w st tsvs p"
    and "Finalize_started p (trace s) =
           sum_list (map (Finalize_call p) (Finalize_tasks st :: 'f task list))"
    and "Finalize_finished p (trace s) =
           sum_list (map (Finalize_call p) (Finalize_tasks st :: 'f task list))"
    and "\<forall>j<length tsvs. folds w st (tsvs ! j)"
proof -
  from assms have alive: "\<not> is_dead (pc s)" and pool: "inv_pool w tsvs st s"
    and calls: "inv_calls w tsvs st s"
    by (simp_all add: inv_def)
  from pool assms(2) have e: "pool_queue s = []" "pool_running s = []"
    and f: "\<forall>j<length tsvs. folds w st (tsvs ! j)"
    by (simp_all add: inv_pool_def)
  have nos: "concat (map (Add_slice p) (Finalize_tasks st :: 'f task list)) = []"
    by (rule Finalizes_no_slices) (rule Finalize_tasks_columns)
  from inv_calls_unfold [OF calls alive, of p] e assms(2) nos
  show "Add_started p (trace s) = Add_expected w st tsvs p"
    and "Add_finished p (trace s) = Add_expected w st tsvs p"
    and "Finalize_started p (trace s) =
           sum_list (map (Finalize_call p) (Finalize_tasks st :: 'f task list))"
    and "Finalize_finished p (trace s) =
           sum_list (map (Finalize_call p) (Finalize_tasks st :: 'f task list))"
    by simp_all
  from f show "\<forall>j<length tsvs. folds w st (tsvs ! j)" .
qed

lemma float_slice_Inr:
  "float_slice b k = Inr x \<Longrightarrow> k < length (block_float_columns b) \<and> x = Floats (block_float_columns b ! k)"
  by (auto simp: float_slice_def split: if_splits)

lemma string_slice_Inr:
  "string_slice b k = Inr x \<Longrightarrow> k < length (block_string_columns b) \<and> x = Strings (block_string_columns b ! k)"
  by (auto simp: string_slice_def split: if_splits)

lemma folds_cases:
  assumes "folds w st tsv"
  obtains b ts1 ts2 ts3 where
    "new_TSVBlock w tsv (float_column_indices st) (string_column_indices st) = Inr b"
    "add_tasks BinnedFloatColumn (float_slice b) (binned_float_columns st) = Inr ts1"
    "add_tasks RawFloatColumn (float_slice b) (raw_float_columns st) = Inr ts2"
    "add_tasks StringColumn (string_slice b) (string_columns st) = Inr ts3"
    "tasks_of w st tsv = ts1 @ ts2 @ ts3"
  using assms
  by (auto simp: folds_def tasks_of_def ProcessBlock_tasks_def split: sum.splits)

lemma float_column_slices:
  assumes dc: "distinct (columns_of st)" and f: "folds w st tsv"
    and m: "(p, k) \<in> set (binned_float_columns st) \<union> set (raw_float_columns st)"
  shows "concat (map (Add_slice p) (tasks_of w st tsv)) = [Floats (floats_in_file w st tsv k)]"
proof -
  from f obtain b ts1 ts2 ts3 where b:
    "new_TSVBlock w tsv (float_column_indices st) (string_column_indices st) = Inr b"
    "add_tasks BinnedFloatColumn (float_slice b) (binned_float_columns st) = Inr ts1"
    "add_tasks RawFloatColumn (float_slice b) (raw_float_columns st) = Inr ts2"
    "add_tasks StringColumn (string_slice b) (string_columns st) = Inr ts3"
    "tasks_of w st tsv = ts1 @ ts2 @ ts3"
    by (rule folds_cases)
  from m add_tasks_member [OF b(2), of p k] add_tasks_member [OF b(3), of p k]
  obtain kd x where x: "float_slice b k = Inr x" "Add kd p x \<in> set (ts1 @ ts2 @ ts3)"
    by auto
  from float_slice_Inr [OF x(1)] b(1) have "x = Floats (floats_in_file w st tsv k)"
    by (simp add: floats_in_file_def)
  with slices_single [OF tasks_of_distinct [OF dc, of w tsv], of "Add kd p x" p] x(2) b(5)
  show ?thesis by simp
qed

lemma string_column_slices:
  assumes dc: "distinct (columns_of st)" and f: "folds w st tsv"
    and m: "(p, k) \<in> set (string_columns st)"
  shows "concat (map (Add_slice p) (tasks_of w st tsv)) = [Strings (strings_in_file w st tsv k)]"
proof -
  from f obtain b ts1 ts2 ts3 where b:
    "new_TSVBlock w tsv (float_column_indices st) (string_column_indices st) = Inr b"
    "add_tasks BinnedFloatColumn (float_slice b) (binned_float_columns st) = Inr ts1"
    "add_tasks RawFloatColumn (float_slice b) (raw_float_columns st) = Inr ts2"
    "add_tasks StringColumn (string_slice b) (string_columns st) = Inr ts3"
    "tasks_of w st tsv = ts1 @ ts2 @ ts3"
    by (rule folds_cases)
  from m add_tasks_member [OF b(4), of p k]
  obtain x where x: "string_slice b k = Inr x" "Add StringColumn p x \<in> set (ts1 @ ts2 @ ts3)"
    by auto
  from string_slice_Inr [OF x(1)] b(1) have "x = Strings (strings_in_file w st tsv k)"
    by (simp add: strings_in_file_def)
  with slices_single [OF tasks_of_distinct [OF dc, of w tsv], of "Add StringColumn p x" p] x(2) b(5)
  show ?thesis by simp
qed

lemma Add_expected_floats:
  assumes dc: "distinct (columns_of st)" and f: "\<forall>tsv\<in>set tsvs. folds w st tsv"
    and m: "(p, k) \<in> set (binned_float_columns st) \<union> set (raw_float_columns st)"
  shows "Add_expected w st tsvs p = map (\<lambda>tsv. Floats (floats_in_file w st tsv k)) tsvs"
  using f by (induction tsvs) (simp_all add: Add_expected_def float_column_slices [OF dc _ m])

lemma Add_expected_strings:
  assumes dc: "distinct (columns_of st)" and f: "\<forall>tsv\<in>set tsvs. folds w st tsv"
    and m: "(p, k) \<in> set (string_columns st)"
  shows "Add_expected w st tsvs p = map (\<lambda>tsv. Strings (strings_in_file w st tsv k)) tsvs"
  using f by (induction tsvs) (simp_all add: Add_expected_def string_column_slices [OF dc _ m])

lemma Returned_float_rows:
  assumes dc: "distinct (columns_of st)" and i: "inv w tsvs st s" and r: "pc s = Returned"
    and m: "(p, k) \<in> set (binned_float_columns st) \<union> set (raw_float_columns st)"
  shows "float_rows p (trace s) = concat (map (\<lambda>tsv. floats_in_file w st tsv k) tsvs)"
proof -
  from Returned_calls(5) [OF i r] have "\<forall>tsv\<in>set tsvs. folds w st tsv"
    by (auto simp: in_set_conv_nth)
  from Add_expected_floats [OF dc this m] Returned_calls(2) [OF i r, of p]
  show ?thesis by (simp add: float_rows_def comp_def)
qed

lemma Returned_string_rows:
  assumes dc: "distinct (columns_of st)" and i: "inv w tsvs st s" and r: "pc s = Returned"
    and m: "(p, k) \<in> set (string_columns st)"
  shows "string_rows p (trace s) = concat (map (\<lambda>tsv. strings_in_file w st tsv k) tsvs)"
proof -
  from Returned_calls(5) [OF i r] have "\<forall>tsv\<in>set tsvs. folds w st tsv"
    by (auto simp: in_set_conv_nth)
  from Add_expected_strings [OF dc this m] Returned_calls(2) [OF i r, of p]
  show ?thesis by (simp add: string_rows_def comp_def)
qed

subsection \<open>Loads that do not die, and steps that can be taken\<close>

lemma step_alive:
  assumes st: "inv_static w tsvs st s" and pool: "inv_pool w tsvs st s"
    and ok: "\<forall>i<length tsvs. FileExists w (tsvs ! i) \<and> folds w st (tsvs ! i)"
    and step: "step w tsvs a s = Some s'"
  shows "\<not> is_dead (pc s')"
  using step
proof (cases rule: step_cases)
  case main
  from main(3) show ?thesis
  proof (cases rule: main_step_cases)
    case (missing i)
    with ok show ?thesis by simp
  next
    case (misfit i b e)
    from st misfit have i: "i < length tsvs" and thisst: "this s = st"
      by (auto simp: inv_static_def)
    with st misfit have "new_TSVBlock w (tsvs ! i) (float_column_indices st) (string_column_indices st) = Inr b"
      by (auto simp: inv_static_def)
    with ok i misfit(4) thisst show ?thesis by (auto simp: folds_def)
  qed simp_all
next
  case (start_load t)
  then show ?thesis by simp
next
  case (end_load t)
  from st end_load(3) obtain i where i: "i < length tsvs" "t = LoadBlock (tsvs ! i) i"
    unfolding inv_static_def by blast
  from st have thisst: "this s = st" by (simp add: inv_static_def)
  from ok i(1) have "folds w st (tsvs ! i)" by simp
  then obtain b where
    "new_TSVBlock w (tsvs ! i) (float_column_indices st) (string_column_indices st) = Inr b"
    by (rule folds_cases)
  with end_load i thisst show ?thesis by simp
next
  case (start_task t)
  then show ?thesis by simp
next
  case (end_task t)
  from pool_task_column [OF pool end_task(2), of t] end_task(3)
  obtain p where "task_column t = Some p" by auto
  with end_task show ?thesis by (simp add: finish_column)
qed

lemma run_append:
  "run w tsvs (xs @ ys) s = (case run w tsvs xs s of None \<Rightarrow> None | Some s' \<Rightarrow> run w tsvs ys s')"
  by (induction xs arbitrary: s) (auto split: option.splits)

lemma run_tasks:
  assumes "\<not> is_dead (pc s)" "pool_queue s = ts" "pool_running s = []"
    and "\<forall>t\<in>set ts. task_column t \<noteq> None"
  shows "\<exists>s'. run w tsvs (concat (map (\<lambda>t. [Start_task t, End_task t]) ts)) s = Some s' \<and>
              pc s' = pc s \<and> pool_queue s' = [] \<and> pool_running s' = [] \<and>
              load_queue s' = load_queue s \<and> load_running s' = load_running s"
  using assms
proof (induction ts arbitrary: s)
  case Nil
  then show ?case by simp
next
  case (Cons t ts)
  from Cons.prems(4) obtain p where p: "task_column t = Some p" by auto
  let ?s1 = "s\<lparr>pool_queue := ts, pool_running := [t], trace := trace s @ [Started t]\<rparr>"
  let ?s2 = "s\<lparr>pool_queue := ts, pool_running := [], trace := trace s @ [Started t, Finished t]\<rparr>"
  from Cons.prems have 1: "step w tsvs (Start_task t) s = Some ?s1"
    by (simp add: step_def)
  from Cons.prems have 2: "step w tsvs (End_task t) ?s1 = Some ?s2"
    by (simp add: step_def finish_column [OF p])
  from Cons.prems have "\<not> is_dead (pc ?s2)" "pool_queue ?s2 = ts" "pool_running ?s2 = []"
    "\<forall>t\<in>set ts. task_column t \<noteq> None"
    by simp_all
  from Cons.IH [OF this] 1 2 show ?case by simp
qed

lemma LoadTSVs_alive:
  assumes ok_setup: "SetupColumns (fs w) header_file config (new_TSVDataStore n) = Inr st"
    and ok: "\<forall>i<length tsvs. FileExists w (tsvs ! i) \<and> folds w st (tsvs ! i)"
    and run: "run w tsvs sched (LoadTSVs w header_file tsvs config n) = Some s"
    and dn: "distinct (configured config)"
  shows "\<not> is_dead (pc s)"
proof -
  have "Inv w tsvs st s0 \<Longrightarrow> \<not> is_dead (pc s0) \<Longrightarrow> run w tsvs sched s0 = Some s \<Longrightarrow>
        \<not> is_dead (pc s)" for s0
  proof (induction sched arbitrary: s0)
    case Nil
    then show ?case by simp
  next
    case (Cons a sched)
    from Cons.prems(3) obtain s1 where 1: "step w tsvs a s0 = Some s1"
      and 2: "run w tsvs sched s1 = Some s"
      by (auto split: option.splits)
    from Cons.prems(1) have "inv_static w tsvs st s0" "inv_pool w tsvs st s0"
      by (simp_all add: Inv_def inv_def)
    from step_alive [OF this ok 1] have "\<not> is_dead (pc s1)" .
    with Cons.IH [OF Inv_step [OF SetupColumns_distinct [OF ok_setup dn] Cons.prems(1) 1] _ 2]
    show ?case by simp
  qed
  from this [OF Inv_LoadTSVs [OF ok_setup]] ok_setup run show ?thesis
    by (simp add: LoadTSVs_def)
qed

lemma pool_progress:
  assumes "\<not> is_dead (pc s)" "pool_queue s \<noteq> [] \<or> pool_running s \<noteq> []"
  shows "\<exists>a s'. step w tsvs a s = Some s'"
proof (cases "pool_queue s")
  case (Cons t ts)
  with assms(1) have "\<exists>s'. step w tsvs (Start_task t) s = Some s'"
    by (simp add: step_def)
  then show ?thesis by blast
next
  case Nil
  with assms(2) obtain t ts where "pool_running s = t # ts"
    by (cases "pool_running s") auto
  with assms(1) have "\<exists>s'. step w tsvs (End_task t) s = Some s'"
    by (simp add: step_def)
  then show ?thesis by blast
qed

lemma no_member_Nil: "\<forall>t. t \<notin> set xs \<Longrightarrow> xs = []"
  by (cases xs) auto

lemma empty_run:
  assumes su: "SetupColumns (fs w) header_file config (new_TSVDataStore n) = Inr st"
  shows "\<exists>s. run w [] ([Main, Main] @ concat (map (\<lambda>t. [Start_task t, End_task t]) (Finalize_tasks st))
                 @ [Main])
               (LoadTSVs w header_file [] config n) = Some s \<and> pc s = Returned"
proof -
  let ?s0 = "LoadTSVs w header_file [] config n"
  let ?F = "Finalize_tasks st :: 'a task list"
  let ?s2 = "?s0\<lparr>pc := Finalizing, pool_queue := ?F, trace := map Enqueued ?F\<rparr>"
  from su have 1: "run w [] [Main, Main] ?s0 = Some ?s2"
    by (simp add: LoadTSVs_def step_def main_step_def)
  have col: "\<forall>t\<in>set ?F. task_column t \<noteq> None"
    by (auto simp: Finalize_tasks_def)
  from su have "\<not> is_dead (pc ?s2)" "pool_queue ?s2 = ?F" "pool_running ?s2 = []"
    by (simp_all add: LoadTSVs_def)
  from run_tasks [OF this col, of w "[]"] su obtain s3 where
    3: "run w [] (concat (map (\<lambda>t. [Start_task t, End_task t]) ?F)) ?s2 = Some s3"
      "pc s3 = Finalizing" "pool_queue s3 = []" "pool_running s3 = []"
      "load_queue s3 = []" "load_running s3 = []"
    by (auto simp: LoadTSVs_def)
  then have 4: "run w [] [Main] s3 = Some (s3\<lparr>pc := Returned\<rparr>)"
    by (simp add: step_def main_step_def)
  from 1 3(1) 4 show ?thesis
    by (simp only: run_append option.case) simp
qed

lemma dead_run:
  "is_dead (pc s) \<Longrightarrow> run w tsvs sched s = Some s' \<Longrightarrow> sched = [] \<and> s' = s"
  by (cases sched) (auto simp: step_def)

subsection \<open>Progress and termination\<close>

lemma inv_loads_step:
  assumes st: "inv_static w tsvs st s" and pool: "inv_pool w tsvs st s"
    and ld: "inv_loads tsvs s"
    and step: "step w tsvs a s = Some s'"
  shows "inv_loads tsvs s'"
proof -
  let ?n = "length tsvs"
  let ?T = "\<lambda>i. LoadBlock (tsvs ! i) i :: 'a task"
  from step have alive: "\<not> is_dead (pc s)"
    by (auto simp: step_def split: if_splits)
  from st have len: "length (blocks s) = ?n" by (simp add: inv_static_def)
  from ld alive have d: "distinct (load_queue s @ load_running s)"
    and L: "\<And>i. i < ?n \<Longrightarrow>
         (?T i \<in> set (load_queue s @ load_running s) \<longleftrightarrow>
            i < submitted_files ?n (pc s) \<and> taken_files ?n (pc s) \<le> i \<and> blocks s ! i = None)"
    and B: "\<And>i. i < ?n \<Longrightarrow> blocks s ! i = None \<or>
            i < submitted_files ?n (pc s) \<and> taken_files ?n (pc s) \<le> i"
    by (auto simp: inv_loads_def)
  from pool alive have ok: "pc_ok ?n (pc s)" by (simp add: inv_pool_def)
  from step show ?thesis
  proof (cases rule: step_cases)
    case main
    from main(3) show ?thesis
    proof (cases rule: main_step_cases)
      case (submit i)
      from L [OF submit(2)] submit(1) have notin: "?T i \<notin> set (load_queue s @ load_running s)"
        by simp
      have "distinct (load_queue s' @ load_running s')"
        using d notin submit(4) by auto
      moreover have "(?T j \<in> set (load_queue s' @ load_running s') \<longleftrightarrow>
            j < submitted_files ?n (pc s') \<and> taken_files ?n (pc s') \<le> j \<and> blocks s' ! j = None) \<and>
         (blocks s' ! j = None \<or>
            j < submitted_files ?n (pc s') \<and> taken_files ?n (pc s') \<le> j)" if j: "j < ?n" for j
      proof (cases "j = i")
        case True
        with B [OF j] submit(1) have "blocks s ! i = None" by auto
        with True submit show ?thesis by simp
      next
        case False
        with L [OF j] B [OF j] submit show ?thesis by (auto simp: less_Suc_eq)
      qed
      ultimately show ?thesis by (simp add: inv_loads_def)
    next
      case (missing i)
      then show ?thesis by (simp add: inv_loads_def)
    next
      case (submitted i)
      with ok have "i = ?n" by simp
      with d L B submitted show ?thesis by (simp add: inv_loads_def)
    next
      case (take i b ts)
      with len have i: "i < ?n" by simp
      have "(?T j \<in> set (load_queue s' @ load_running s') \<longleftrightarrow>
            j < submitted_files ?n (pc s') \<and> taken_files ?n (pc s') \<le> j \<and> blocks s' ! j = None) \<and>
         (blocks s' ! j = None \<or>
            j < submitted_files ?n (pc s') \<and> taken_files ?n (pc s') \<le> j)" if j: "j < ?n" for j
      proof (cases "j = i")
        case True
        with L [OF i] take len show ?thesis by simp
      next
        case False
        with L [OF j] B [OF j] take show ?thesis by auto
      qed
      with d take show ?thesis by (simp add: inv_loads_def)
    next
      case (misfit i b e)
      then show ?thesis by (simp add: inv_loads_def)
    next
      case (drained i)
      with ok len have "i = ?n" by simp
      with d L B drained show ?thesis by (simp add: inv_loads_def)
    next
      case (joined i)
      with d L B show ?thesis by (simp add: inv_loads_def)
    next
      case return
      with d L B show ?thesis by (simp add: inv_loads_def)
    qed
  next
    case (start_load t)
    from d start_load(3) have "distinct (remove1 t (load_queue s) @ load_running s @ [t])"
      by auto
    moreover from d start_load(3)
    have "set (remove1 t (load_queue s) @ load_running s @ [t]) = set (load_queue s @ load_running s)"
      by auto
    ultimately show ?thesis using L B start_load by (simp add: inv_loads_def)
  next
    case (end_load t)
    from st end_load(3) obtain i where i: "i < ?n" "t = ?T i"
      unfolding inv_static_def by blast
    let ?s = "s\<lparr>load_running := remove1 t (load_running s)\<rparr>"
    from d end_load(3) have d': "distinct (load_queue s @ remove1 t (load_running s))"
      and set': "set (load_queue s @ remove1 t (load_running s)) = set (load_queue s @ load_running s) - {t}"
      by auto
    show ?thesis
    proof (cases rule: finish_LoadBlock_cases [of w "tsvs ! i" ?s i])
      case (died e)
      with end_load(4) i show ?thesis by (simp add: inv_loads_def)
    next
      case (installed b)
      with end_load(4) i have s': "s' = ?s\<lparr>blocks := (blocks ?s)[i := Some b],
             trace := trace ?s @ [Finished (?T i)]\<rparr>" by simp
      from L [OF i(1)] end_load(3) i(2) have Ti: "i < submitted_files ?n (pc s)"
        "taken_files ?n (pc s) \<le> i" by auto
      have "(?T j \<in> set (load_queue s' @ load_running s') \<longleftrightarrow>
            j < submitted_files ?n (pc s') \<and> taken_files ?n (pc s') \<le> j \<and> blocks s' ! j = None) \<and>
         (blocks s' ! j = None \<or>
            j < submitted_files ?n (pc s') \<and> taken_files ?n (pc s') \<le> j)" if j: "j < ?n" for j
      proof (cases "j = i")
        case True
        with Ti i len set' show ?thesis by (simp add: s')
      next
        case False
        with L [OF j] B [OF j] set' i(2) show ?thesis by (auto simp: s')
      qed
      with d' show ?thesis by (simp add: inv_loads_def s')
    qed
  next
    case (start_task t)
    with d L B show ?thesis by (simp add: inv_loads_def)
  next
    case (end_task t)
    from pool_task_column [OF pool end_task(2), of t] end_task(3)
    obtain p where "task_column t = Some p" by auto
    with end_task d L B show ?thesis by (simp add: inv_loads_def finish_column)
  qed
qed

lemma length_remove1_mem: "t \<in> set xs \<Longrightarrow> Suc (length (remove1 t xs)) = length xs"
  by (induction xs) auto

lemma Finalize_tasks_length: "length (Finalize_tasks st) = length (columns_of st)"
proof -
  have "length (map task_column (Finalize_tasks st)) = length (columns_of st)"
    unfolding Finalize_tasks_columns(1) columns_of_def by simp
  then show ?thesis by simp
qed

lemma ProcessBlock_tasks_length:
  assumes "ProcessBlock_tasks st b = Inr ts"
  shows "length ts = length (columns_of st)"
proof -
  have "length (map task_column ts) = length (columns_of st)"
    unfolding ProcessBlock_tasks_columns(1) [OF assms] by simp
  then show ?thesis by simp
qed

lemma diff_Suc_step: "i < n \<Longrightarrow> n - i = Suc (n - Suc i)"
  by arith

lemma step_decreases:
  assumes st: "inv_static w tsvs st s" and pool: "inv_pool w tsvs st s"
    and step: "step w tsvs a s = Some s'"
  shows "steps_left (length tsvs) (length (columns_of st)) s' <
         steps_left (length tsvs) (length (columns_of st)) s"
proof -
  let ?n = "length tsvs" and ?m = "length (columns_of st)"
  from step have alive: "\<not> is_dead (pc s)"
    by (auto simp: step_def split: if_splits)
  from st have len: "length (blocks s) = ?n" and thisst: "this s = st"
    by (simp_all add: inv_static_def)
  from pool alive have ok: "pc_ok ?n (pc s)" by (simp add: inv_pool_def)
  from step show ?thesis
  proof (cases rule: step_cases)
    case main
    from main(3) show ?thesis
    proof (cases rule: main_step_cases)
      case (submit i)
      with diff_Suc_step [OF submit(2)] show ?thesis by (simp add: steps_left_def)
    next
      case (missing i)
      then show ?thesis by (simp add: steps_left_def)
    next
      case (submitted i)
      with ok have "i = ?n" by simp
      with submitted show ?thesis by (simp add: steps_left_def)
    next
      case (take i b ts)
      with len have i: "i < ?n" by simp
      from ProcessBlock_tasks_length [OF take(4)] thisst have "length ts = ?m" by simp
      with take alive diff_Suc_step [OF i] show ?thesis by (simp add: steps_left_def)
    next
      case (misfit i b e)
      then show ?thesis by (simp add: steps_left_def)
    next
      case (drained i)
      with ok len have "i = ?n" by simp
      with drained thisst show ?thesis by (simp add: steps_left_def Finalize_tasks_length)
    next
      case (joined i)
      then show ?thesis by (simp add: steps_left_def)
    next
      case return
      then show ?thesis by (simp add: steps_left_def)
    qed
  next
    case (start_load t)
    with length_remove1_mem [OF start_load(3)] show ?thesis
      by (simp add: steps_left_def)
  next
    case (end_load t)
    from st end_load(3) obtain i where i: "i < ?n" "t = LoadBlock (tsvs ! i) i"
      unfolding inv_static_def by blast
    let ?s = "s\<lparr>load_running := remove1 t (load_running s)\<rparr>"
    show ?thesis
    proof (cases rule: finish_LoadBlock_cases [of w "tsvs ! i" ?s i])
      case (died e)
      from end_load(3) have "0 < length (load_running s)" by (cases "load_running s") auto
      with died end_load i alive show ?thesis
        by (simp add: steps_left_def)
    next
      case (installed b)
      with end_load i alive length_remove1_mem [OF end_load(3)] show ?thesis
        by (simp add: steps_left_def)
    qed
  next
    case (start_task t)
    with length_remove1_mem [OF start_task(3)] show ?thesis
      by (simp add: steps_left_def)
  next
    case (end_task t)
    from pool_task_column [OF pool end_task(2), of t] end_task(3)
    obtain p where "task_column t = Some p" by auto
    with end_task length_remove1_mem [OF end_task(3)] show ?thesis
      by (simp add: steps_left_def finish_column)
  qed
qed

lemma run_bounded:
  assumes dc: "distinct (columns_of st)"
  shows "Inv w tsvs st s \<Longrightarrow> run w tsvs sched s = Some s' \<Longrightarrow>
         length sched + steps_left (length tsvs) (length (columns_of st)) s' \<le>
         steps_left (length tsvs) (length (columns_of st)) s"
proof (induction sched arbitrary: s)
  case Nil
  then show ?case by simp
next
  case (Cons a sched)
  from Cons.prems(2) obtain s1 where 1: "step w tsvs a s = Some s1"
    and 2: "run w tsvs sched s1 = Some s'"
    by (auto split: option.splits)
  from Cons.prems(1) have st: "inv_static w tsvs st s" and pool: "inv_pool w tsvs st s"
    by (simp_all add: Inv_def inv_def)
  from Cons.IH [OF Inv_step [OF dc Cons.prems(1) 1] 2] step_decreases [OF st pool 1]
  show ?case by simp
qed

lemma steps_left_LoadTSVs:
  assumes "SetupColumns (fs w) header_file config (new_TSVDataStore n) = Inr st"
  shows "steps_left (length tsvs) m (LoadTSVs w header_file tsvs config n) =
         max_steps (length tsvs) m"
  using assms by (simp add: LoadTSVs_def steps_left_def max_steps_def)

lemma LoadTSVs_bounded:
  assumes su: "SetupColumns (fs w) header_file config (new_TSVDataStore n) = Inr st"
    and run: "run w tsvs sched (LoadTSVs w header_file tsvs config n) = Some s"
    and dn: "distinct (configured config)"
  shows "length sched \<le> max_steps (length tsvs) (length (columns_of st))"
  using run_bounded [OF SetupColumns_distinct [OF su dn] Inv_LoadTSVs [OF su] run]
  by (simp add: steps_left_LoadTSVs [OF su])

lemma inv_loads_run:
  assumes dc: "distinct (columns_of st)"
  shows "Inv w tsvs st s \<Longrightarrow> inv_loads tsvs s \<Longrightarrow> run w tsvs sched s = Some s' \<Longrightarrow>
         inv_loads tsvs s'"
proof (induction sched arbitrary: s)
  case Nil
  then show ?case by simp
next
  case (Cons a sched)
  from Cons.prems(3) obtain s1 where 1: "step w tsvs a s = Some s1"
    and 2: "run w tsvs sched s1 = Some s'"
    by (auto split: option.splits)
  from Cons.prems(1) have st: "inv_static w tsvs st s" and pool: "inv_pool w tsvs st s"
    by (simp_all add: Inv_def inv_def)
  from Cons.IH [OF Inv_step [OF dc Cons.prems(1) 1] inv_loads_step [OF st pool Cons.prems(2) 1] 2]
  show ?case .
qed

lemma inv_loads_LoadTSVs:
  assumes "SetupColumns (fs w) header_file config (new_TSVDataStore n) = Inr st"
  shows "inv_loads tsvs (LoadTSVs w header_file tsvs config n)"
  using assms by (simp add: LoadTSVs_def inv_loads_def)

lemma loads_joined:
  assumes st: "inv_static w tsvs st s" and ld: "inv_loads tsvs s"
    and alive: "\<not> is_dead (pc s)"
    and tk: "taken_files (length tsvs) (pc s) = length tsvs"
  shows "load_queue s = [] \<and> load_running s = []"
proof -
  have "t \<notin> set (load_queue s @ load_running s)" for t
  proof
    assume t: "t \<in> set (load_queue s @ load_running s)"
    from st have "\<forall>t\<in>set (load_queue s) \<union> set (load_running s).
        \<exists>i<length tsvs. t = LoadBlock (tsvs ! i) i"
      by (simp add: inv_static_def)
    with t have "\<exists>i<length tsvs. t = LoadBlock (tsvs ! i) i" by simp
    then obtain i where i: "i < length tsvs" "t = LoadBlock (tsvs ! i) i" by blast
    with ld alive t have "taken_files (length tsvs) (pc s) \<le> i"
      unfolding inv_loads_def by blast
    with tk i show False by simp
  qed
  then have "\<forall>t. t \<notin> set (load_queue s @ load_running s)" by blast
  then have "load_queue s @ load_running s = []" by (rule no_member_Nil)
  then show ?thesis by simp
qed

lemma progress:
  assumes st: "inv_static w tsvs st s" and pool: "inv_pool w tsvs st s"
    and ld: "inv_loads tsvs s"
    and alive: "\<not> is_dead (pc s)" and nr: "pc s \<noteq> Returned"
  shows "\<exists>a s'. step w tsvs a s = Some s'"
proof (cases "pool_queue s \<noteq> [] \<or> pool_running s \<noteq> []")
  case True
  from pool_progress [OF alive True] show ?thesis .
next
  case False
  from st have len: "length (blocks s) = length tsvs" by (simp add: inv_static_def)
  from pool alive have ok: "pc_ok (length tsvs) (pc s)" by (simp add: inv_pool_def)
  show ?thesis
  proof (cases "pc s")
    case (Submitting i)
    with alive have "\<exists>s'. step w tsvs Main s = Some s'"
      by (simp add: step_def main_step_def)
    then show ?thesis by blast
  next
    case (Draining i)
    show ?thesis
    proof (cases "i < length tsvs")
      case False
      with Draining alive len have "\<exists>s'. step w tsvs Main s = Some s'"
        by (simp add: step_def main_step_def)
      then show ?thesis by blast
    next
      case i: True
      show ?thesis
      proof (cases "blocks s ! i")
        case (Some b)
        with Draining alive len i have "\<exists>s'. step w tsvs Main s = Some s'"
          by (simp add: step_def main_step_def split: sum.splits)
        then show ?thesis by blast
      next
        case None
        with ld alive i Draining
        have "LoadBlock (tsvs ! i) i \<in> set (load_queue s @ load_running s)"
          unfolding inv_loads_def by simp
        then consider "LoadBlock (tsvs ! i) i \<in> set (load_queue s)"
          | "LoadBlock (tsvs ! i) i \<in> set (load_running s)" by auto
        then show ?thesis
        proof cases
          case 1
          with alive have "\<exists>s'. step w tsvs (Start_load (LoadBlock (tsvs ! i) i)) s = Some s'"
            by (simp add: step_def)
          then show ?thesis by blast
        next
          case 2
          with alive have "\<exists>s'. step w tsvs (End_load (LoadBlock (tsvs ! i) i)) s = Some s'"
            by (simp add: step_def)
          then show ?thesis by blast
        qed
      qed
    qed
  next
    case (Folding i)
    with False alive have "\<exists>s'. step w tsvs Main s = Some s'"
      by (simp add: step_def main_step_def)
    then show ?thesis by blast
  next
    case Finalizing
    with loads_joined [OF st ld alive] have "load_queue s = [] \<and> load_running s = []" by simp
    with Finalizing False alive have "\<exists>s'. step w tsvs Main s = Some s'"
      by (simp add: step_def main_step_def)
    then show ?thesis by blast
  next
    case Returned
    with nr show ?thesis by simp
  next
    case (Aborted e)
    with alive show ?thesis by simp
  qed
qed

lemma Returned_final:
  assumes st: "inv_static w tsvs st s" and pool: "inv_pool w tsvs st s"
    and ld: "inv_loads tsvs s" and r: "pc s = Returned"
  shows "step w tsvs a s = None"
proof -
  from r have alive: "\<not> is_dead (pc s)" by simp
  from loads_joined [OF st ld alive] r have "load_queue s = [] \<and> load_running s = []" by simp
  moreover from pool r have "pool_queue s = [] \<and> pool_running s = []"
    by (simp add: inv_pool_def)
  ultimately show ?thesis using r by (cases a) (simp_all add: step_def main_step_def)
qed

lemma completes:
  assumes dc: "distinct (columns_of st)"
    and ok: "\<forall>i<length tsvs. FileExists w (tsvs ! i) \<and> folds w st (tsvs ! i)"
  shows "Inv w tsvs st s \<Longrightarrow> inv_loads tsvs s \<Longrightarrow> \<not> is_dead (pc s) \<Longrightarrow>
         \<exists>sched s'. run w tsvs sched s = Some s' \<and> pc s' = Returned"
proof (induction "steps_left (length tsvs) (length (columns_of st)) s" arbitrary: s
       rule: less_induct)
  case less
  from less.prems(1) have st: "inv_static w tsvs st s" and pool: "inv_pool w tsvs st s"
    by (simp_all add: Inv_def inv_def)
  show ?case
  proof (cases "pc s = Returned")
    case True
    then have "run w tsvs [] s = Some s \<and> pc s = Returned" by simp
    then show ?thesis by blast
  next
    case False
    from progress [OF st pool less.prems(2,3) False]
    obtain a s1 where 1: "step w tsvs a s = Some s1" by blast
    from less.hyps [OF step_decreases [OF st pool 1] Inv_step [OF dc less.prems(1) 1]
        inv_loads_step [OF st pool less.prems(2) 1] step_alive [OF st pool ok 1]]
    obtain sched s' where "run w tsvs sched s1 = Some s'" "pc s' = Returned" by blast
    with 1 have "run w tsvs (a # sched) s = Some s' \<and> pc s' = Returned" by simp
    then show ?thesis by blast
  qed
qed

lemma LoadTSVs_completes:
  assumes su: "SetupColumns (fs w) header_file config (new_TSVDataStore n) = Inr st"
    and ok: "\<forall>i<length tsvs. FileExists w (tsvs ! i) \<and> folds w st (tsvs ! i)"
    and dn: "distinct (configured config)"
  shows "\<exists>sched s. run w tsvs sched (LoadTSVs w header_file tsvs config n) = Some s \<and>
           pc s = Returned"
proof -
  from su have "\<not> is_dead (pc (LoadTSVs w header_file tsvs config n))"
    by (simp add: LoadTSVs_def)
  from completes [OF SetupColumns_distinct [OF su dn] ok Inv_LoadTSVs [OF su]
      inv_loads_LoadTSVs [OF su] this]
  show ?thesis .
qed

lemma LoadTSVs_progress:
  assumes su: "SetupColumns (fs w) header_file config (new_TSVDataStore n) = Inr st"
    and ok: "\<forall>i<length tsvs. FileExists w (tsvs ! i) \<and> folds w st (tsvs ! i)"
    and run: "run w tsvs sched (LoadTSVs w header_file tsvs config n) = Some s"
    and dn: "distinct (configured config)"
  shows "pc s = Returned \<and> (\<forall>a. step w tsvs a s = None) \<or>
         pc s \<noteq> Returned \<and> (\<exists>a s'. step w tsvs a s = Some s')"
proof -
  note dc = SetupColumns_distinct [OF su dn]
  from LoadTSVs_run [OF su run dn] have I: "Inv w tsvs st s" .
  then have st: "inv_static w tsvs st s" and pool: "inv_pool w tsvs st s"
    by (simp_all add: Inv_def inv_def)
  from inv_loads_run [OF dc Inv_LoadTSVs [OF su] inv_loads_LoadTSVs [OF su] run]
  have ld: "inv_loads tsvs s" .
  from LoadTSVs_alive [OF su ok run dn] have alive: "\<not> is_dead (pc s)" .
  show ?thesis
  proof (cases "pc s = Returned")
    case True
    with Returned_final [OF st pool ld True] show ?thesis by simp
  next
    case False
    with progress [OF st pool ld alive False] show ?thesis by simp
  qed
qed

subsection \<open>A missing file\<close>

lemma obs_files_checked [simp]:
  "files_checked [] = []"
  "files_checked (tr @ tr') = files_checked tr @ files_checked tr'"
  "files_checked (e # tr) = checked e @ files_checked tr"
  by (simp_all add: files_checked_def)

lemma inv_missing_pool:
  assumes "inv_missing w tsvs st k s" "k < length tsvs"
  shows "inv_pool w tsvs st s"
proof -
  from assms(1) have e: "pool_queue s = []" "pool_running s = []"
    and pc: "is_dead (pc s) \<or> (\<exists>j\<le>k. pc s = Submitting j)"
    unfolding inv_missing_def by auto
  from pc show ?thesis
  proof
    assume "is_dead (pc s)"
    then show ?thesis by (simp add: inv_pool_def)
  next
    assume "\<exists>j\<le>k. pc s = Submitting j"
    then obtain j where "j \<le> k" "pc s = Submitting j" by blast
    with e assms(2) show ?thesis by (simp add: inv_pool_def)
  qed
qed

lemma inv_missing_step:
  assumes k: "k < length tsvs" "\<not> FileExists w (tsvs ! k)"
    and kk: "\<forall>j<k. FileExists w (tsvs ! j)"
    and m: "inv_missing w tsvs st k s"
    and step: "step w tsvs a s = Some s'"
  shows "inv_missing w tsvs st k s' \<and> missing_steps_left k s' < missing_steps_left k s"
proof -
  from step have alive: "\<not> is_dead (pc s)"
    by (auto simp: step_def split: if_splits)
  from m have st: "inv_static w tsvs st s" and empty: "pool_queue s = []" "pool_running s = []"
    and bt: "blocks_taken (trace s) = []"
    and nc: "\<forall>p. Add_started p (trace s) = [] \<and> Finalize_started p (trace s) = 0"
    and loads: "\<forall>t\<in>set (load_queue s @ load_running s). \<exists>i<k. t = LoadBlock (tsvs ! i) i"
    by (simp_all add: inv_missing_def)
  from m have "(\<exists>j\<le>k. pc s = Submitting j \<and> loads_submitted (trace s) = [0 ..< j] \<and>
          files_checked (trace s) = [0 ..< j]) \<or> is_dead (pc s)"
    unfolding inv_missing_def by auto
  with alive obtain j where j: "j \<le> k" "pc s = Submitting j"
    "loads_submitted (trace s) = [0 ..< j]" "files_checked (trace s) = [0 ..< j]"
    by blast
  from inv_static_step [OF st inv_missing_pool [OF m k(1)] step]
  have st': "inv_static w tsvs st s'" .
  from step show ?thesis
  proof (cases rule: step_cases)
    case main
    from main(3) show ?thesis
    proof (cases rule: main_step_cases)
      case (submit i)
      from submit(1) j(2) have ij: "i = j" by simp
      with submit(3) k(2) j(1) have "j < k" by (cases "j = k") auto
      note i = ij this
      have "\<exists>j'\<le>k. pc s' = Submitting j' \<and> loads_submitted (trace s') = [0 ..< j'] \<and>
              files_checked (trace s') = [0 ..< j']"
        using submit(4) i j(3,4) by (intro exI [of _ "Suc j"]) simp
      moreover from loads i
      have "\<forall>t\<in>set (load_queue s' @ load_running s'). \<exists>i<k. t = LoadBlock (tsvs ! i) i"
        by (auto simp: submit(4))
      moreover from i j(2) have "missing_steps_left k s' < missing_steps_left k s"
        by (simp add: missing_steps_left_def submit(4) diff_Suc_step)
      ultimately show ?thesis using st' empty bt nc
        by (simp add: inv_missing_def submit(4))
    next
      case (missing i)
      from missing(1) j(2) have ij: "i = j" by simp
      have "j = k"
      proof (rule ccontr)
        assume "j \<noteq> k"
        with j(1) have "j < k" by simp
        with kk ij missing(3) show False by simp
      qed
      note i = ij this
      with missing(4) j(3,4) loads st' empty bt nc j(2) show ?thesis
        by (simp add: inv_missing_def missing_steps_left_def)
    next
      case (submitted i)
      with j k show ?thesis by simp
    qed (use j in simp_all)
  next
    case (start_load t)
    from loads start_load(3) obtain i where "t = LoadBlock (tsvs ! i) i" by auto
    with nc have nc': "\<forall>p. Add_started p (trace s') = [] \<and> Finalize_started p (trace s') = 0"
      by (simp add: start_load(4))
    from start_load(3) loads
    have "\<forall>t'\<in>set (load_queue s' @ load_running s'). \<exists>i<k. t' = LoadBlock (tsvs ! i) i"
      by (auto simp: start_load(4) dest: set_remove1_subset [THEN subsetD])
    moreover have "\<exists>j'\<le>k. pc s' = Submitting j' \<and> loads_submitted (trace s') = [0 ..< j'] \<and>
              files_checked (trace s') = [0 ..< j']"
      using j by (intro exI [of _ j]) (simp add: start_load(4))
    moreover from length_remove1_mem [OF start_load(3)] j(2)
    have "missing_steps_left k s' < missing_steps_left k s"
      by (simp add: missing_steps_left_def start_load(4))
    ultimately show ?thesis using st' empty bt nc'
      by (simp add: inv_missing_def start_load(4))
  next
    case (end_load t)
    from loads end_load(3) obtain i where i: "i < k" "t = LoadBlock (tsvs ! i) i" by auto
    from st have thisst: "this s = st" by (simp add: inv_static_def)
    let ?s = "s\<lparr>load_running := remove1 t (load_running s)\<rparr>"
    from end_load(3) loads
    have loads': "\<forall>t'\<in>set (load_queue s @ remove1 t (load_running s)).
                    \<exists>i<k. t' = LoadBlock (tsvs ! i) i"
      by (auto dest: set_remove1_subset [THEN subsetD])
    show ?thesis
    proof (cases rule: finish_LoadBlock_cases [of w "tsvs ! i" ?s i])
      case (died e)
      with end_load(4) i have s': "s' = ?s\<lparr>pc := Aborted e\<rparr>" by simp
      from died(1) thisst i(1) j(1,3,4)
      have "\<exists>i<k. \<exists>e'.
          new_TSVBlock w (tsvs ! i) (float_column_indices st) (string_column_indices st) = Inl e' \<and>
          pc s' = Aborted e' \<and>
          (\<exists>j\<le>k. loads_submitted (trace s') = [0 ..< j] \<and> files_checked (trace s') = [0 ..< j])"
        by (intro exI [of _ i]) (auto simp: s')
      moreover from end_load(3) have "0 < length (load_running s)"
        by (cases "load_running s") auto
      with j(2) have "missing_steps_left k s' < missing_steps_left k s"
        by (simp add: missing_steps_left_def s')
      ultimately show ?thesis using st' empty bt nc loads'
        by (simp add: inv_missing_def s')
    next
      case (installed b)
      with end_load(4) i have s': "s' = ?s\<lparr>blocks := (blocks ?s)[i := Some b],
             trace := trace ?s @ [Finished (LoadBlock (tsvs ! i) i)]\<rparr>" by simp
      have "\<exists>j'\<le>k. pc s' = Submitting j' \<and> loads_submitted (trace s') = [0 ..< j'] \<and>
              files_checked (trace s') = [0 ..< j']"
        using j by (intro exI [of _ j]) (simp add: s')
      moreover from length_remove1_mem [OF end_load(3)] j(2)
      have "missing_steps_left k s' < missing_steps_left k s"
        by (simp add: missing_steps_left_def s')
      ultimately show ?thesis using st' empty bt nc loads'
        by (simp add: inv_missing_def s')
    qed
  next
    case (start_task t)
    with empty show ?thesis by simp
  next
    case (end_task t)
    with empty show ?thesis by simp
  qed
qed

lemma inv_missing_run:
  assumes k: "k < length tsvs" "\<not> FileExists w (tsvs ! k)"
    and kk: "\<forall>j<k. FileExists w (tsvs ! j)"
  shows "inv_missing w tsvs st k s \<Longrightarrow> run w tsvs sched s = Some s' \<Longrightarrow>
         inv_missing w tsvs st k s' \<and>
         length sched + missing_steps_left k s' \<le> missing_steps_left k s"
proof (induction sched arbitrary: s)
  case Nil
  then show ?case by simp
next
  case (Cons a sched)
  from Cons.prems(2) obtain s1 where 1: "step w tsvs a s = Some s1"
    and 2: "run w tsvs sched s1 = Some s'"
    by (auto split: option.splits)
  from inv_missing_step [OF k kk Cons.prems(1) 1]
  have m: "inv_missing w tsvs st k s1" and less: "missing_steps_left k s1 < missing_steps_left k s"
    by simp_all
  from Cons.IH [OF m 2] less show ?case by simp
qed

lemma inv_missing_LoadTSVs:
  assumes "SetupColumns (fs w) header_file config (new_TSVDataStore n) = Inr st"
  shows "inv_missing w tsvs st k (LoadTSVs w header_file tsvs config n)"
    and "missing_steps_left k (LoadTSVs w header_file tsvs config n) = 3 * k + 1"
  using assms
  by (simp_all add: LoadTSVs_def inv_missing_def inv_static_def missing_steps_left_def)

lemma submit_files:
  assumes su: "SetupColumns (fs w) header_file config (new_TSVDataStore n) = Inr st"
    and k: "k < length tsvs" "\<forall>j<k. FileExists w (tsvs ! j)"
  shows "j \<le> k \<Longrightarrow>
         \<exists>s. run w tsvs (replicate j Main) (LoadTSVs w header_file tsvs config n) = Some s \<and>
             pc s = Submitting j \<and> loads_submitted (trace s) = [0 ..< j]"
proof (induction j)
  case 0
  from su show ?case by (simp add: LoadTSVs_def)
next
  case (Suc j)
  then obtain s where s: "run w tsvs (replicate j Main) (LoadTSVs w header_file tsvs config n) = Some s"
    "pc s = Submitting j" "loads_submitted (trace s) = [0 ..< j]"
    by auto
  from Suc.prems k have "j < length tsvs" "FileExists w (tsvs ! j)" by auto
  with s(2) have "step w tsvs Main s =
      Some (s\<lparr>pc := Submitting (Suc j),
              load_queue := load_queue s @ [LoadBlock (tsvs ! j) j],
              trace := trace s @ [FileExists_called j, Enqueued (LoadBlock (tsvs ! j) j)]\<rparr>)"
    by (simp add: step_def main_step_def)
  with s have "\<exists>s'. run w tsvs (replicate j Main @ [Main])
                    (LoadTSVs w header_file tsvs config n) = Some s' \<and>
                  pc s' = Submitting (Suc j) \<and> loads_submitted (trace s') = [0 ..< Suc j]"
    by (simp add: run_append)
  then show ?case by (simp add: replicate_append_same)
qed

section \<open>The examples, evaluated\<close>

lemma headers_of_example: "headers_of example_header = [''id'', ''x'', ''y'', ''label'']"
  by (simp add: headers_of_def example_header_def TAB_def NL_def TrimWhiteSpace_def is_space_def)

lemmas SetupColumns_eval =
  SetupColumns_def add_binned_float_def add_raw_float_def add_string_def reset_column_def
  new_column_def delete_column_def
  new_TSVDataStore_def Let_def TAB_def NL_def TrimWhiteSpace_def is_space_def

lemma headers_of_twice: "headers_of twice_header = [''x'', ''y'', ''x'']"
  by (simp add: headers_of_def twice_header_def TAB_def NL_def TrimWhiteSpace_def is_space_def)

lemma SetupColumns_twice:
  "case SetupColumns [''header'' \<mapsto> twice_header] ''header'' twice_config (new_TSVDataStore 0) of
     Inl e \<Rightarrow> False
   | Inr st \<Rightarrow> True"
  by (simp add: SetupColumns_eval twice_header_def twice_config_def)

lemmas machine_eval =
  LoadTSVs_def step_def main_step_def is_dead_def FileExists_def tsv_world_def
  ProcessBlock_tasks_def Finalize_tasks_def float_slice_def string_slice_def
  parse_TSVBlock_def example_world_def example_tsvs_def missing_tsvs_def
  example_files_def example_header_def example_config_def
  SetupColumns_eval

lemma example_store:
  assumes "SetupColumns (fs (example_world to_float)) ''header'' example_config
             (new_TSVDataStore n) = Inr st"
  shows "float_column_indices st = [1, 2]" "string_column_indices st = [3]"
    "binned_float_columns st = []" "raw_float_columns st = [(n, 0), (Suc n, 1)]"
    "string_columns st = [(Suc (Suc n), 0)]"
    "column_map st ''x'' = Some n" "column_map st ''y'' = Some (Suc n)"
    "column_map st ''label'' = Some (Suc (Suc n))"
    "objects st n = Some \<lparr>col_kind = RawFloatColumn, col_name = ''x''\<rparr>"
    "objects st (Suc n) = Some \<lparr>col_kind = RawFloatColumn, col_name = ''y''\<rparr>"
    "objects st (Suc (Suc n)) = Some \<lparr>col_kind = StringColumn, col_name = ''label''\<rparr>"
  using assms
  by (auto simp: example_world_def tsv_world_def example_files_def SetupColumns_eval
        example_header_def example_config_def)

lemma example_setup:
  "\<exists>st. SetupColumns (fs (example_world to_float)) ''header'' example_config
          (new_TSVDataStore n) = Inr st"
  by (simp add: example_world_def tsv_world_def example_files_def SetupColumns_eval
        example_header_def example_config_def)

lemma example_rows:
  assumes "float_column_indices st = [1, 2]" "string_column_indices st = [3]"
  shows "floats_in_file (example_world to_float) st ''a.tsv'' 0 = [to_float ''0.5'']"
    "floats_in_file (example_world to_float) st ''a.tsv'' 1 = [to_float ''1.2'']"
    "floats_in_file (example_world to_float) st ''b.tsv'' 0 = [to_float ''0.7'']"
    "floats_in_file (example_world to_float) st ''b.tsv'' 1 = [to_float ''0.9'']"
    "strings_in_file (example_world to_float) st ''a.tsv'' 0 = [''A'']"
    "strings_in_file (example_world to_float) st ''b.tsv'' 0 = [''B'']"
  by (simp_all add: floats_in_file_def strings_in_file_def assms example_world_def tsv_world_def
        example_files_def parse_TSVBlock_def TAB_def NL_def)

lemma example_folds:
  assumes "float_column_indices st = [1, 2]" "string_column_indices st = [3]"
    "binned_float_columns st = []" "raw_float_columns st = [(p, 0), (q, 1)]"
    "string_columns st = [(r, 0)]"
  shows "\<forall>i<length example_tsvs.
           FileExists (example_world to_float) (example_tsvs ! i) \<and>
           folds (example_world to_float) st (example_tsvs ! i)"
  by (simp add: example_tsvs_def less_Suc_eq folds_def assms example_world_def tsv_world_def
        example_files_def FileExists_def parse_TSVBlock_def TAB_def NL_def ProcessBlock_tasks_def
        float_slice_def string_slice_def)


lemma example_run_one_at_a_time:
  "\<exists>s. run (example_world to_float) example_tsvs (one_at_a_time to_float n)
          (LoadTSVs (example_world to_float) ''header'' example_tsvs example_config n) = Some s \<and>
       pc s = Returned"
  by (simp add: one_at_a_time_def machine_eval)

lemma example_run_no_files:
  "\<exists>s. run (example_world to_float) []
          [Main, Main,
           Start_task (Finalize StringColumn 2), End_task (Finalize StringColumn 2),
           Start_task (Finalize RawFloatColumn 1), Start_task (Finalize RawFloatColumn 0),
           End_task (Finalize RawFloatColumn 0), End_task (Finalize RawFloatColumn 1),
           Main]
          (LoadTSVs (example_world to_float) ''header'' [] example_config 0) = Some s \<and>
       pc s = Returned"
  by (simp add: machine_eval)

lemma missing_run:
  "\<exists>s. run (example_world to_float) missing_tsvs [Main, Main]
          (LoadTSVs (example_world to_float) ''header'' missing_tsvs example_config 0) = Some s \<and>
       pc s = Aborted (Configuration_error (TSV_does_not_exist ''missing.tsv'')) \<and>
       trace s = [FileExists_called 0, Enqueued (LoadBlock ''a.tsv'' 0), FileExists_called 1]"
  by (simp add: machine_eval)

lemma SetupColumns_example:
  "case SetupColumns [''header'' \<mapsto> example_header] ''header'' example_config (new_TSVDataStore 0) of
     Inl e \<Rightarrow> False
   | Inr st \<Rightarrow>
       float_column_indices st = [1, 2] \<and> string_column_indices st = [3] \<and>
       binned_float_columns st = [] \<and> raw_float_columns st = [(0, 0), (1, 1)] \<and>
       string_columns st = [(2, 0)] \<and>
       column_map st ''x'' = Some 0 \<and> column_map st ''y'' = Some 1 \<and>
       column_map st ''label'' = Some 2 \<and>
       objects st 0 = Some \<lparr>col_kind = RawFloatColumn, col_name = ''x''\<rparr> \<and>
       objects st 1 = Some \<lparr>col_kind = RawFloatColumn, col_name = ''y''\<rparr> \<and>
       objects st 2 = Some \<lparr>col_kind = StringColumn, col_name = ''label''\<rparr>"
  by (simp add: SetupColumns_eval example_header_def example_config_def)

lemma example_distinct: "distinct (configured example_config)"
  by (simp add: configured_def example_config_def)

lemma missing_run_worker:
  "\<exists>s. run (example_world to_float) missing_tsvs
          [Main, Start_load (LoadBlock ''a.tsv'' 0), End_load (LoadBlock ''a.tsv'' 0), Main]
          (LoadTSVs (example_world to_float) ''header'' missing_tsvs example_config 0) = Some s \<and>
       1 \<in> set (files_checked (trace s))"
  by (simp add: machine_eval TAB_def NL_def)

text \<open>
  A name configured three times: the third object takes the address of the first, which
  the second \<^verbatim>\<open>reset\<close> has freed, so the first and the third entry of the list point to
  one object and the second to none.
\<close>

lemma SetupColumns_thrice:
  "\<exists>st. SetupColumns [''header'' \<mapsto> ''x''] ''header''
           \<lparr>binned_float_column = [''x'', ''x'', ''x''], raw_float_column = [],
            string_column = []\<rparr>
           (new_TSVDataStore 0) = Inr st \<and>
        binned_float_columns st = [(0, 0), (1, 1), (0, 2)] \<and> float_column_indices st = [0, 0, 0] \<and>
        column_map st ''x'' = Some 0 \<and>
        objects st 0 = Some \<lparr>col_kind = BinnedFloatColumn, col_name = ''x''\<rparr> \<and>
        objects st 1 = None \<and> \<not> distinct (columns_of st)"
  by (simp add: SetupColumns_eval columns_of_def)

section \<open>Results\<close>

text \<open>
  In the results on \<^verbatim>\<open>LoadTSVs\<close> a schedule stands for one way the threads may
  interleave; \<open>run\<close> of it from the state \<^verbatim>\<open>SetupColumns\<close> leaves behind is a
  state the program can be in. What is said of every schedule holds however the worker
  threads are scheduled. The results on the columns are stated for configurations that name
  no column twice, \<open>distinct (configured config)\<close>: callers must avoid duplicates, and what
  \<^verbatim>\<open>SetupColumns\<close> does with a repeated name is the subject of C6.
\<close>



text \<open>
  C2 does not hold as stated: with the files \<^verbatim>\<open>a.tsv\<close>, \<^verbatim>\<open>missing.tsv\<close>,
  \<^verbatim>\<open>b.tsv\<close>, of which the second does not exist, the controlling thread has submitted the
  parse task of \<^verbatim>\<open>a.tsv\<close> when the check of \<^verbatim>\<open>missing.tsv\<close> fails.
\<close>

theorem missing_file_counterexample:
  "\<not> (\<forall>sched s.
        run (example_world (\<lambda>cell. cell)) missing_tsvs sched
          (LoadTSVs (example_world (\<lambda>cell. cell)) ''header'' missing_tsvs example_config 0)
        = Some s \<and>
        pc s = Aborted (Configuration_error (TSV_does_not_exist ''missing.tsv'')) \<longrightarrow>
        loads_submitted (trace s) = [])"
proof
  assume a: "\<forall>sched s.
        run (example_world (\<lambda>cell. cell)) missing_tsvs sched
          (LoadTSVs (example_world (\<lambda>cell. cell)) ''header'' missing_tsvs example_config 0)
        = Some s \<and>
        pc s = Aborted (Configuration_error (TSV_does_not_exist ''missing.tsv'')) \<longrightarrow>
        loads_submitted (trace s) = []"
  from missing_run obtain s where
    s: "run (example_world (\<lambda>cell. cell)) missing_tsvs [Main, Main]
          (LoadTSVs (example_world (\<lambda>cell. cell)) ''header'' missing_tsvs example_config 0)
        = Some s"
      "pc s = Aborted (Configuration_error (TSV_does_not_exist ''missing.tsv''))"
      "trace s = [FileExists_called 0, Enqueued (LoadBlock ''a.tsv'' 0), FileExists_called 1]"
    by blast
  from a s(1,2) have "loads_submitted (trace s) = []" by blast
  with s(3) show False by simp
qed

text \<open>
  C2, amended. Let schema resolution succeed and let file \<open>k\<close> be the first that does not
  exist. Whatever the schedule: \<^verbatim>\<open>LoadTSVs\<close> has not returned, no block has been
  taken and no call of \<^verbatim>\<open>Add\<close> or \<^verbatim>\<open>Finalize\<close> on a column has started; the
  parse tasks submitted are those of the first \<open>j\<close> files for some \<open>j \<le> k\<close>, so
  none is submitted for the missing file or a later one; the schedule has at most
  \<open>3 * k + 1\<close> steps; as long as the process lives the controlling thread is in its first
  loop at a file up to \<open>k\<close> and can take its next step. Once the controlling thread has
  probed file \<open>k\<close> the process is dead of the configuration error
  \<^verbatim>\<open>"TSV ... does not exist."\<close>, and the parse tasks submitted are exactly those of the
  \<open>k\<close> files before it. The process dies in no other way than this or by the death of the
  parse task of an earlier file. So every execution ends with the process dead, and with
  the configuration error unless a parse task has died before. The schedule on which the
  controlling thread runs \<open>k + 1\<close> steps with no step of a worker between ends so.
\<close>

theorem missing_file_aborts:
  fixes w :: "'f world"
  assumes "SetupColumns (fs w) header_file config (new_TSVDataStore n) = Inr st"
    and "k < length tsvs" and "\<not> FileExists w (tsvs ! k)"
    and "\<forall>j<k. FileExists w (tsvs ! j)"
  shows "(\<forall>sched s. run w tsvs sched (LoadTSVs w header_file tsvs config n) = Some s \<longrightarrow>
            pc s \<noteq> Returned \<and> blocks_taken (trace s) = [] \<and>
            (\<forall>p. Add_started p (trace s) = [] \<and> Finalize_started p (trace s) = 0) \<and>
            (\<exists>j\<le>k. loads_submitted (trace s) = [0 ..< j]) \<and>
            length sched \<le> 3 * k + 1 \<and>
            (\<not> is_dead (pc s) \<longrightarrow>
               (\<exists>j\<le>k. pc s = Submitting j) \<and> (\<exists>s'. step w tsvs Main s = Some s')) \<and>
            (k \<in> set (files_checked (trace s)) \<longrightarrow>
               pc s = Aborted (Configuration_error (TSV_does_not_exist (tsvs ! k))) \<and>
               loads_submitted (trace s) = [0 ..< k]) \<and>
            (is_dead (pc s) \<longrightarrow>
               k \<in> set (files_checked (trace s)) \<or>
               (\<exists>i<k. \<exists>e.
                  new_TSVBlock w (tsvs ! i) (float_column_indices st) (string_column_indices st)
                    = Inl e \<and>
                  pc s = Aborted e))) \<and>
         (\<exists>s. run w tsvs (replicate (Suc k) Main) (LoadTSVs w header_file tsvs config n) = Some s \<and>
              pc s = Aborted (Configuration_error (TSV_does_not_exist (tsvs ! k))) \<and>
              loads_submitted (trace s) = [0 ..< k])"
proof -
  let ?s0 = "LoadTSVs w header_file tsvs config n"
  let ?dead = "Aborted (Configuration_error (TSV_does_not_exist (tsvs ! k)))"
  note init = inv_missing_LoadTSVs [OF assms(1), where tsvs = tsvs and k = k]
  have 1: "pc s \<noteq> Returned \<and> blocks_taken (trace s) = [] \<and>
           (\<forall>p. Add_started p (trace s) = [] \<and> Finalize_started p (trace s) = 0) \<and>
           (\<exists>j\<le>k. loads_submitted (trace s) = [0 ..< j]) \<and>
           length sched \<le> 3 * k + 1 \<and>
           (\<not> is_dead (pc s) \<longrightarrow>
              (\<exists>j\<le>k. pc s = Submitting j) \<and> (\<exists>s'. step w tsvs Main s = Some s')) \<and>
           (k \<in> set (files_checked (trace s)) \<longrightarrow>
              pc s = ?dead \<and> loads_submitted (trace s) = [0 ..< k]) \<and>
           (is_dead (pc s) \<longrightarrow>
              k \<in> set (files_checked (trace s)) \<or>
              (\<exists>i<k. \<exists>e.
                 new_TSVBlock w (tsvs ! i) (float_column_indices st) (string_column_indices st)
                   = Inl e \<and>
                 pc s = Aborted e))"
    if run: "run w tsvs sched ?s0 = Some s" for sched s
  proof -
    from inv_missing_run [OF assms(2,3,4) init(1) run] init(2)
    have m: "inv_missing w tsvs st k s" and len: "length sched \<le> 3 * k + 1"
      by simp_all
    from m have bt: "blocks_taken (trace s) = []"
      "\<forall>p. Add_started p (trace s) = [] \<and> Finalize_started p (trace s) = 0"
      by (simp_all add: inv_missing_def)
    from m consider
        (loop) j where "j \<le> k" "pc s = Submitting j" "loads_submitted (trace s) = [0 ..< j]"
          "files_checked (trace s) = [0 ..< j]"
      | (missing) "pc s = ?dead" "loads_submitted (trace s) = [0 ..< k]"
          "files_checked (trace s) = [0 ..< Suc k]"
      | (parse) i e j where "i < k"
          "new_TSVBlock w (tsvs ! i) (float_column_indices st) (string_column_indices st) = Inl e"
          "pc s = Aborted e" "j \<le> k" "loads_submitted (trace s) = [0 ..< j]"
          "files_checked (trace s) = [0 ..< j]"
      unfolding inv_missing_def by blast
    then show ?thesis
    proof cases
      case loop
      from loop(2) have "\<exists>s'. step w tsvs Main s = Some s'"
        by (simp add: step_def main_step_def)
      with loop bt len show ?thesis by auto
    next
      case missing
      with bt len show ?thesis by auto
    next
      case parse
      from parse(1,2,3) have "\<exists>i<k. \<exists>e.
          new_TSVBlock w (tsvs ! i) (float_column_indices st) (string_column_indices st) = Inl e \<and>
          pc s = Aborted e" by blast
      with parse(3-6) bt len show ?thesis by auto
    qed
  qed
  from submit_files [OF assms(1,2,4), of k] obtain s where
    s: "run w tsvs (replicate k Main) ?s0 = Some s" "pc s = Submitting k"
       "loads_submitted (trace s) = [0 ..< k]"
    by auto
  from s(2) assms(2,3) have "step w tsvs Main s =
      Some (s\<lparr>pc := ?dead, trace := trace s @ [FileExists_called k]\<rparr>)"
    by (simp add: step_def main_step_def)
  with s have "\<exists>s'. run w tsvs (replicate k Main @ [Main]) ?s0 = Some s' \<and>
                  pc s' = ?dead \<and> loads_submitted (trace s') = [0 ..< k]"
    by (simp add: run_append)
  then have 2: "\<exists>s. run w tsvs (replicate (Suc k) Main) ?s0 = Some s \<and>
              pc s = ?dead \<and> loads_submitted (trace s) = [0 ..< k]"
    by (simp add: replicate_append_same)
  from 1 2 show ?thesis by blast
qed

text \<open>
  With the files \<^verbatim>\<open>a.tsv\<close>, \<^verbatim>\<open>missing.tsv\<close>, \<^verbatim>\<open>b.tsv\<close>: the controlling thread dies at
  the second file with the parse task of the first submitted, also when a worker has
  started and completed that task in between.
\<close>

theorem missing_file_aborts_witness:
  "(\<exists>s. run (example_world (\<lambda>cell. cell)) missing_tsvs (replicate (Suc 1) Main)
          (LoadTSVs (example_world (\<lambda>cell. cell)) ''header'' missing_tsvs example_config 0)
        = Some s \<and>
       pc s = Aborted (Configuration_error (TSV_does_not_exist (missing_tsvs ! 1))) \<and>
       loads_submitted (trace s) = [0 ..< 1]) \<and>
   (\<exists>s. run (example_world (\<lambda>cell. cell)) missing_tsvs
          [Main, Start_load (LoadBlock ''a.tsv'' 0), End_load (LoadBlock ''a.tsv'' 0), Main]
          (LoadTSVs (example_world (\<lambda>cell. cell)) ''header'' missing_tsvs example_config 0)
        = Some s \<and>
       pc s = Aborted (Configuration_error (TSV_does_not_exist (missing_tsvs ! 1))) \<and>
       loads_submitted (trace s) = [0 ..< 1] \<and> blocks_taken (trace s) = [])"
proof -
  let ?w = "example_world (\<lambda>cell. cell) :: string world"
  let ?s0 = "LoadTSVs ?w ''header'' missing_tsvs example_config 0"
  from example_setup [of "\<lambda>cell. cell" 0] obtain st where
    st: "SetupColumns (fs ?w) ''header'' example_config (new_TSVDataStore 0) = Inr st" by blast
  have 1: "1 < length missing_tsvs" "\<not> FileExists ?w (missing_tsvs ! 1)"
    "\<forall>j<1. FileExists ?w (missing_tsvs ! j)"
    by (simp_all add: missing_tsvs_def example_world_def tsv_world_def FileExists_def
          example_files_def)
  note res = missing_file_aborts [OF st 1]
  from res have a: "\<exists>s. run ?w missing_tsvs (replicate (Suc 1) Main) ?s0 = Some s \<and>
       pc s = Aborted (Configuration_error (TSV_does_not_exist (missing_tsvs ! 1))) \<and>
       loads_submitted (trace s) = [0 ..< 1]"
    by blast
  from missing_run_worker obtain s where
    s: "run ?w missing_tsvs
          [Main, Start_load (LoadBlock ''a.tsv'' 0), End_load (LoadBlock ''a.tsv'' 0), Main] ?s0
        = Some s" "1 \<in> set (files_checked (trace s))"
    by blast
  from res s(1) have "blocks_taken (trace s) = [] \<and>
      (1 \<in> set (files_checked (trace s)) \<longrightarrow>
         pc s = Aborted (Configuration_error (TSV_does_not_exist (missing_tsvs ! 1))) \<and>
         loads_submitted (trace s) = [0 ..< 1])"
    by blast
  with s have "\<exists>s. run ?w missing_tsvs
          [Main, Start_load (LoadBlock ''a.tsv'' 0), End_load (LoadBlock ''a.tsv'' 0), Main] ?s0
        = Some s \<and>
       pc s = Aborted (Configuration_error (TSV_does_not_exist (missing_tsvs ! 1))) \<and>
       loads_submitted (trace s) = [0 ..< 1] \<and> blocks_taken (trace s) = []"
    by blast
  with a show ?thesis by (rule conjI)
qed



text \<open>
  C4. When the header file can be read and every configured name occurs among the trimmed
  header names, \<^verbatim>\<open>SetupColumns\<close> succeeds. The list of float positions has one
  entry per binned name followed by one entry per raw name, the list of string positions
  one entry per string name, each in the order of the configuration; every entry is a
  position of the header that carries the configured name. The slot of the \<open>k\<close>-th binned
  column is \<open>k\<close>, the slot of the \<open>k\<close>-th raw column is the number of binned columns
  plus \<open>k\<close>, and the slot of the \<open>k\<close>-th string column is \<open>k\<close>: the slot of a
  column is the place of its position in the list of its type. When no name is configured
  twice, the \<open>k\<close>-th entry of each column list pairs that slot with a living object of the
  list's class and of the \<open>k\<close>-th configured name of that kind, which is the object
  \<^verbatim>\<open>column_map_\<close> holds under the name, and the objects are pairwise different.
\<close>

theorem SetupColumns_resolves:
  assumes "files header_file = Some contents"
    and "\<forall>h\<in>set (configured config). h \<in> set (headers_of contents)"
  shows "\<exists>st. SetupColumns files header_file config (new_TSVDataStore n) = Inr st \<and>
      length (float_column_indices st) =
        length (binned_float_column config) + length (raw_float_column config) \<and>
      length (string_column_indices st) = length (string_column config) \<and>
      (\<forall>k<length (binned_float_column config).
         float_column_indices st ! k < length (headers_of contents) \<and>
         headers_of contents ! (float_column_indices st ! k) = binned_float_column config ! k) \<and>
      (\<forall>k<length (raw_float_column config).
         float_column_indices st ! (length (binned_float_column config) + k)
           < length (headers_of contents) \<and>
         headers_of contents ! (float_column_indices st ! (length (binned_float_column config) + k))
           = raw_float_column config ! k) \<and>
      (\<forall>k<length (string_column config).
         string_column_indices st ! k < length (headers_of contents) \<and>
         headers_of contents ! (string_column_indices st ! k) = string_column config ! k) \<and>
      map snd (binned_float_columns st) = [0 ..< length (binned_float_column config)] \<and>
      map snd (raw_float_columns st) =
        [length (binned_float_column config) ..<
         length (binned_float_column config) + length (raw_float_column config)] \<and>
      map snd (string_columns st) = [0 ..< length (string_column config)] \<and>
      (distinct (configured config) \<longrightarrow>
         distinct (columns_of st) \<and>
         (\<forall>k<length (binned_float_column config).
            \<exists>p. binned_float_columns st ! k = (p, k) \<and>
                column_map st (binned_float_column config ! k) = Some p \<and>
                objects st p =
                  Some \<lparr>col_kind = BinnedFloatColumn, col_name = binned_float_column config ! k\<rparr>) \<and>
         (\<forall>k<length (raw_float_column config).
            \<exists>p. raw_float_columns st ! k = (p, length (binned_float_column config) + k) \<and>
                column_map st (raw_float_column config ! k) = Some p \<and>
                objects st p =
                  Some \<lparr>col_kind = RawFloatColumn, col_name = raw_float_column config ! k\<rparr>) \<and>
         (\<forall>k<length (string_column config).
            \<exists>p. string_columns st ! k = (p, k) \<and>
                column_map st (string_column config ! k) = Some p \<and>
                objects st p =
                  Some \<lparr>col_kind = StringColumn, col_name = string_column config ! k\<rparr>))"
proof -
  from SetupColumns_succeeds [of files header_file contents config "new_TSVDataStore n", OF assms]
  obtain st where
    st: "SetupColumns files header_file config (new_TSVDataStore n) = Inr st" by blast
  let ?m = "index_headers (split TAB contents) 0 Map.empty"
  let ?hs = "headers_of contents"
  let ?B = "binned_float_column config" and ?R = "raw_float_column config"
  let ?S = "string_column config"
  have refs: "distinct (columns_of st) \<and>
         (\<forall>k<length ?B.
            \<exists>p. binned_float_columns st ! k = (p, k) \<and> column_map st (?B ! k) = Some p \<and>
                objects st p = Some \<lparr>col_kind = BinnedFloatColumn, col_name = ?B ! k\<rparr>) \<and>
         (\<forall>k<length ?R.
            \<exists>p. raw_float_columns st ! k = (p, length ?B + k) \<and>
                column_map st (?R ! k) = Some p \<and>
                objects st p = Some \<lparr>col_kind = RawFloatColumn, col_name = ?R ! k\<rparr>) \<and>
         (\<forall>k<length ?S.
            \<exists>p. string_columns st ! k = (p, k) \<and> column_map st (?S ! k) = Some p \<and>
                objects st p = Some \<lparr>col_kind = StringColumn, col_name = ?S ! k\<rparr>)"
    if dn: "distinct (configured config)"
  proof -
    note e = SetupColumns_entries(1-3) [OF st dn] and r = SetupColumns_refs(4-6) [OF st dn]
    have b: "\<exists>p. binned_float_columns st ! k = (p, k) \<and> column_map st (?B ! k) = Some p \<and>
                objects st p = Some \<lparr>col_kind = BinnedFloatColumn, col_name = ?B ! k\<rparr>"
      if "k < length ?B" for k
      using e(1) [OF that] r(1) [OF that] by simp
    have ra: "\<exists>p. raw_float_columns st ! k = (p, length ?B + k) \<and>
                column_map st (?R ! k) = Some p \<and>
                objects st p = Some \<lparr>col_kind = RawFloatColumn, col_name = ?R ! k\<rparr>"
      if "k < length ?R" for k
      using e(2) [OF that] r(2) [OF that] by simp
    have s: "\<exists>p. string_columns st ! k = (p, k) \<and> column_map st (?S ! k) = Some p \<and>
                objects st p = Some \<lparr>col_kind = StringColumn, col_name = ?S ! k\<rparr>"
      if "k < length ?S" for k
      using e(3) [OF that] r(3) [OF that] by simp
    from SetupColumns_distinct [OF st dn] b ra s show ?thesis by blast
  qed
  from st show ?thesis
  proof (rule SetupColumns_Inr)
    fix contents'
    assume c: "files header_file = Some contents'"
      and f: "float_column_indices st =
           map (\<lambda>h. the (index_headers (split TAB contents') 0 Map.empty h)) (?B @ ?R)"
      and s: "string_column_indices st =
           map (\<lambda>h. the (index_headers (split TAB contents') 0 Map.empty h)) ?S"
      and slots: "map snd (binned_float_columns st) = [0 ..< length ?B]"
        "map snd (raw_float_columns st) = [length ?B ..< length ?B + length ?R]"
        "map snd (string_columns st) = [0 ..< length ?S]"
    from c assms(1) have [simp]: "contents' = contents" by simp
    have pos: "the (?m h) < length ?hs \<and> ?hs ! the (?m h) = h" if "h \<in> set (configured config)" for h
    proof -
      from that assms(2) have "h \<in> set ?hs" by blast
      then show ?thesis by (rule header_position) simp
    qed
    have B: "\<forall>k<length ?B. float_column_indices st ! k < length ?hs \<and>
               ?hs ! (float_column_indices st ! k) = ?B ! k"
      using pos by (simp add: f nth_append configured_def)
    have R: "\<forall>k<length ?R. float_column_indices st ! (length ?B + k) < length ?hs \<and>
               ?hs ! (float_column_indices st ! (length ?B + k)) = ?R ! k"
      using pos by (simp add: f nth_append configured_def)
    have S: "\<forall>k<length ?S. string_column_indices st ! k < length ?hs \<and>
               ?hs ! (string_column_indices st ! k) = ?S ! k"
      using pos by (simp add: s configured_def)
    have L: "length (float_column_indices st) = length ?B + length ?R"
      "length (string_column_indices st) = length ?S"
      by (simp_all add: f s)
    from st L B R S slots refs show ?thesis by blast
  qed
qed

theorem SetupColumns_resolves_witness:
  "\<exists>st. SetupColumns [''header'' \<mapsto> example_header] ''header'' example_config (new_TSVDataStore 0)
           = Inr st \<and>
        float_column_indices st = [1, 2] \<and> string_column_indices st = [3] \<and>
        binned_float_columns st = [] \<and> raw_float_columns st = [(0, 0), (1, 1)] \<and>
        string_columns st = [(2, 0)] \<and>
        column_map st ''x'' = Some 0 \<and> column_map st ''y'' = Some 1 \<and>
        column_map st ''label'' = Some 2 \<and>
        objects st 0 = Some \<lparr>col_kind = RawFloatColumn, col_name = ''x''\<rparr> \<and>
        objects st 1 = Some \<lparr>col_kind = RawFloatColumn, col_name = ''y''\<rparr> \<and>
        objects st 2 = Some \<lparr>col_kind = StringColumn, col_name = ''label''\<rparr> \<and>
        distinct (configured example_config) \<and> distinct (columns_of st)"
proof -
  have 1: "[''header'' \<mapsto> example_header] ''header'' = Some example_header" by simp
  have 2: "\<forall>h\<in>set (configured example_config). h \<in> set (headers_of example_header)"
    by (simp add: configured_def example_config_def headers_of_example)
  from SetupColumns_resolves
         [where files = "[''header'' \<mapsto> example_header]" and header_file = "''header''"
            and n = 0, OF 1 2]
  obtain st where
    "SetupColumns [''header'' \<mapsto> example_header] ''header'' example_config (new_TSVDataStore 0) = Inr st"
    "distinct (configured example_config) \<longrightarrow> distinct (columns_of st)"
    by blast
  with SetupColumns_example example_distinct show ?thesis by simp
qed

text \<open>
  C5. When the header file can be read and a configured name does not occur among its
  trimmed names, \<^verbatim>\<open>LoadTSVs\<close> is dead as soon as \<^verbatim>\<open>SetupColumns\<close> is: it dies of the
  configuration error \<^verbatim>\<open>"Failed to find ... in header file."\<close> for a configured name the
  header lacks, with an empty trace (no file of the list has been probed and no parse task
  submitted or started) and an empty pool, and no step follows.
\<close>

theorem missing_column_aborts:
  fixes w :: "'f world"
  assumes "fs w header_file = Some contents"
    and "\<exists>h\<in>set (configured config). h \<notin> set (headers_of contents)"
  shows "\<exists>h\<in>set (configured config).
           h \<notin> set (headers_of contents) \<and>
           pc (LoadTSVs w header_file tsvs config n) =
             Aborted (Configuration_error (Failed_to_find h)) \<and>
           trace (LoadTSVs w header_file tsvs config n) = [] \<and>
           load_queue (LoadTSVs w header_file tsvs config n) = [] \<and>
           load_running (LoadTSVs w header_file tsvs config n) = [] \<and>
           (\<forall>sched s. run w tsvs sched (LoadTSVs w header_file tsvs config n) = Some s \<longrightarrow>
              sched = [] \<and> s = LoadTSVs w header_file tsvs config n)"
proof -
  from SetupColumns_fails [of "fs w" header_file contents config "new_TSVDataStore n", OF assms]
  obtain h where
    h: "h \<in> set (configured config)" "h \<notin> set (headers_of contents)"
      "SetupColumns (fs w) header_file config (new_TSVDataStore n) =
         Inl (Configuration_error (Failed_to_find h))"
    by blast
  let ?s0 = "LoadTSVs w header_file tsvs config n"
  from h(3) have s0: "pc ?s0 = Aborted (Configuration_error (Failed_to_find h))"
    "trace ?s0 = []" "load_queue ?s0 = []" "load_running ?s0 = []"
    by (simp_all add: LoadTSVs_def)
  then have "is_dead (pc ?s0)" by simp
  from dead_run [OF this] have
    "\<forall>sched s. run w tsvs sched ?s0 = Some s \<longrightarrow> sched = [] \<and> s = ?s0"
    by blast
  with h(1,2) s0 show ?thesis by blast
qed

theorem missing_column_aborts_witness:
  "pc (LoadTSVs (example_world (\<lambda>cell. cell)) ''header'' example_tsvs
         \<lparr>binned_float_column = [''x''], raw_float_column = [''z''], string_column = [''label'']\<rparr> 0)
     = Aborted (Configuration_error (Failed_to_find ''z'')) \<and>
   trace (LoadTSVs (example_world (\<lambda>cell. cell)) ''header'' example_tsvs
         \<lparr>binned_float_column = [''x''], raw_float_column = [''z''], string_column = [''label'']\<rparr> 0)
     = []"
proof -
  let ?w = "example_world (\<lambda>cell. cell) :: string world"
  let ?c = "\<lparr>binned_float_column = [''x''], raw_float_column = [''z''], string_column = [''label'']\<rparr>"
  have 1: "fs ?w ''header'' = Some example_header"
    by (simp add: example_world_def tsv_world_def example_files_def)
  have 2: "\<exists>h\<in>set (configured ?c). h \<notin> set (headers_of example_header)"
    by (simp add: configured_def headers_of_example)
  from missing_column_aborts [OF 1 2, of example_tsvs 0] obtain h where
    h: "h \<in> set (configured ?c)" "h \<notin> set (headers_of example_header)"
      "pc (LoadTSVs ?w ''header'' example_tsvs ?c 0) = Aborted (Configuration_error (Failed_to_find h))"
      "trace (LoadTSVs ?w ''header'' example_tsvs ?c 0) = []"
    by blast
  from h(1,2) have "h = ''z''"
    by (auto simp: configured_def headers_of_example)
  with h(3,4) show ?thesis by simp
qed

text \<open>
  C6, evaluated on the configuration that names the binned column \<open>x\<close> twice over the
  header \<open>x\<close>. Each occurrence gets its own entry in the column list and in the list of
  positions, and an object of its own is created for each. But \<^verbatim>\<open>column_map_\<close> owns
  one object per name: the \<^verbatim>\<open>reset\<close> of the second occurrence destroys the object of
  the first, to which the first entry of \<^verbatim>\<open>binned_float_columns_\<close> still points.
\<close>

theorem duplicate_name_destroys_column:
  "\<exists>st. SetupColumns [''header'' \<mapsto> ''x''] ''header''
           \<lparr>binned_float_column = [''x'', ''x''], raw_float_column = [], string_column = []\<rparr>
           (new_TSVDataStore 0) = Inr st \<and>
        binned_float_columns st = [(0, 0), (1, 1)] \<and> float_column_indices st = [0, 0] \<and>
        column_map st ''x'' = Some 1 \<and>
        objects st 1 = Some \<lparr>col_kind = BinnedFloatColumn, col_name = ''x''\<rparr> \<and>
        objects st 0 = None"
  by (simp add: SetupColumns_eval)

text \<open>
  C7. For the example, with every conversion \<open>to_float\<close> of numeric cells and every state
  of the allocator: there is a schedule on which \<^verbatim>\<open>LoadTSVs\<close> returns; no schedule
  leads to a dead process; no schedule has more than 31 steps, and as long as
  \<^verbatim>\<open>LoadTSVs\<close> has not returned some thread can take a step, so that every execution
  ends with the return of \<^verbatim>\<open>LoadTSVs\<close>; and on every schedule on which it returns, the
  store maps \<open>x\<close>, \<open>y\<close> and \<open>label\<close> to two raw float columns and a string column of these
  names whose rows are the conversions of \<open>0.5\<close> and \<open>0.7\<close>, the conversions of \<open>1.2\<close> and
  \<open>0.9\<close>, and \<open>A\<close> and \<open>B\<close>.
\<close>

theorem example_load:
  fixes to_float :: "string \<Rightarrow> 'f"
  shows
    "(\<exists>sched s.
        run (example_world to_float) example_tsvs sched
          (LoadTSVs (example_world to_float) ''header'' example_tsvs example_config n) = Some s \<and>
        pc s = Returned) \<and>
     (\<forall>sched s.
        run (example_world to_float) example_tsvs sched
          (LoadTSVs (example_world to_float) ''header'' example_tsvs example_config n) = Some s \<longrightarrow>
        \<not> is_dead (pc s) \<and> length sched \<le> 31 \<and>
        (pc s \<noteq> Returned \<longrightarrow>
           (\<exists>a s'. step (example_world to_float) example_tsvs a s = Some s')) \<and>
        (pc s = Returned \<longrightarrow>
           (\<exists>x y label.
              column_map (this s) ''x'' = Some x \<and>
              objects (this s) x = Some \<lparr>col_kind = RawFloatColumn, col_name = ''x''\<rparr> \<and>
              float_rows x (trace s) = [to_float ''0.5'', to_float ''0.7''] \<and>
              column_map (this s) ''y'' = Some y \<and>
              objects (this s) y = Some \<lparr>col_kind = RawFloatColumn, col_name = ''y''\<rparr> \<and>
              float_rows y (trace s) = [to_float ''1.2'', to_float ''0.9''] \<and>
              column_map (this s) ''label'' = Some label \<and>
              objects (this s) label = Some \<lparr>col_kind = StringColumn, col_name = ''label''\<rparr> \<and>
              string_rows label (trace s) = [''A'', ''B''])))"
proof -
  let ?w = "example_world to_float"
  let ?s0 = "LoadTSVs ?w ''header'' example_tsvs example_config n"
  from example_setup [of to_float n] obtain st where
    st: "SetupColumns (fs ?w) ''header'' example_config (new_TSVDataStore n) = Inr st" by blast
  note ex = example_store [OF st]
  note dn = example_distinct
  note dc = SetupColumns_distinct [OF st dn]
  note rows = example_rows [OF ex(1,2), of to_float]
  have 1: "\<exists>sched s. run ?w example_tsvs sched ?s0 = Some s \<and> pc s = Returned"
    using example_run_one_at_a_time [of to_float n] by blast
  have 2: "\<not> is_dead (pc s)" if "run ?w example_tsvs sched ?s0 = Some s" for sched s
    using LoadTSVs_alive [OF st example_folds [OF ex(1-5)] that dn] .
  have 4: "length sched \<le> 31" if "run ?w example_tsvs sched ?s0 = Some s" for sched s
    using LoadTSVs_bounded [OF st that dn] ex(3-5)
    by (simp add: columns_of_def max_steps_def example_tsvs_def)
  have 5: "\<exists>a s'. step ?w example_tsvs a s = Some s'"
    if "run ?w example_tsvs sched ?s0 = Some s" "pc s \<noteq> Returned" for sched s
    using LoadTSVs_progress [OF st example_folds [OF ex(1-5)] that(1) dn] that(2) by blast
  have 3: "\<exists>x y label.
              column_map (this s) ''x'' = Some x \<and>
              objects (this s) x = Some \<lparr>col_kind = RawFloatColumn, col_name = ''x''\<rparr> \<and>
              float_rows x (trace s) = [to_float ''0.5'', to_float ''0.7''] \<and>
              column_map (this s) ''y'' = Some y \<and>
              objects (this s) y = Some \<lparr>col_kind = RawFloatColumn, col_name = ''y''\<rparr> \<and>
              float_rows y (trace s) = [to_float ''1.2'', to_float ''0.9''] \<and>
              column_map (this s) ''label'' = Some label \<and>
              objects (this s) label = Some \<lparr>col_kind = StringColumn, col_name = ''label''\<rparr> \<and>
              string_rows label (trace s) = [''A'', ''B'']"
    if run: "run ?w example_tsvs sched ?s0 = Some s" and r: "pc s = Returned" for sched s
  proof -
    from LoadTSVs_run [OF st run dn] have i: "inv ?w example_tsvs st s"
      by (simp add: Inv_def)
    then have thisst: "this s = st" by (simp add: inv_def inv_static_def)
    have x: "float_rows n (trace s) = [to_float ''0.5'', to_float ''0.7'']"
      using Returned_float_rows [OF dc i r, of n 0] ex(4) rows by (simp add: example_tsvs_def)
    have y: "float_rows (Suc n) (trace s) = [to_float ''1.2'', to_float ''0.9'']"
      using Returned_float_rows [OF dc i r, of "Suc n" 1] ex(4) rows by (simp add: example_tsvs_def)
    have l: "string_rows (Suc (Suc n)) (trace s) = [''A'', ''B'']"
      using Returned_string_rows [OF dc i r, of "Suc (Suc n)" 0] ex(5) rows
      by (simp add: example_tsvs_def)
    from x y l ex(6-11) thisst show ?thesis by simp
  qed
  from 1 2 3 4 5 show ?thesis by blast
qed

theorem example_load_witness:
  "\<exists>s x y label.
     run (example_world (\<lambda>cell. cell)) example_tsvs (one_at_a_time (\<lambda>cell. cell) 0)
       (LoadTSVs (example_world (\<lambda>cell. cell)) ''header'' example_tsvs example_config 0) = Some s \<and>
     pc s = Returned \<and>
     column_map (this s) ''x'' = Some x \<and> float_rows x (trace s) = [''0.5'', ''0.7''] \<and>
     column_map (this s) ''y'' = Some y \<and> float_rows y (trace s) = [''1.2'', ''0.9''] \<and>
     column_map (this s) ''label'' = Some label \<and> string_rows label (trace s) = [''A'', ''B'']"
proof -
  from example_run_one_at_a_time [of "\<lambda>cell. cell" 0] obtain s where
    s: "run (example_world (\<lambda>cell. cell)) example_tsvs (one_at_a_time (\<lambda>cell. cell) 0)
          (LoadTSVs (example_world (\<lambda>cell. cell)) ''header'' example_tsvs example_config 0) = Some s"
      "pc s = Returned"
    by blast
  with example_load [of "\<lambda>cell. cell" 0] show ?thesis by blast
qed

text \<open>
  C8. Schema resolution is deterministic in its inputs: the outcome of
  \<^verbatim>\<open>SetupColumns\<close> on the same files, header file and configuration, reduced to the
  error or to the slot layout, does not depend on the one thing that may differ between
  two runs, the state of the allocator the column objects come from.
\<close>

theorem SetupColumns_deterministic:
  "map_sum id slot_layout (SetupColumns files header_file config (new_TSVDataStore n)) =
   map_sum id slot_layout (SetupColumns files header_file config (new_TSVDataStore n'))"
  by (rule SetupColumns_layout) (simp add: slot_layout_def new_TSVDataStore_def)

text \<open>
  C9. When \<^verbatim>\<open>SetupColumns\<close> succeeds and \<open>j\<close> is the last position of the header
  that carries \<open>name\<close> after trimming, every configured occurrence of \<open>name\<close> is
  resolved to \<open>j\<close>, whatever earlier positions carry the same name: later header entries
  overwrite earlier ones in the map from names to positions.
\<close>

theorem SetupColumns_last_occurrence:
  assumes "SetupColumns files header_file config (new_TSVDataStore n) = Inr st"
    and "files header_file = Some contents"
    and "j < length (headers_of contents)" and "headers_of contents ! j = name"
    and "\<forall>j'<length (headers_of contents). j < j' \<longrightarrow> headers_of contents ! j' \<noteq> name"
  shows "(\<forall>k<length (binned_float_column config @ raw_float_column config).
            (binned_float_column config @ raw_float_column config) ! k = name \<longrightarrow>
            float_column_indices st ! k = j) \<and>
         (\<forall>k<length (string_column config).
            string_column config ! k = name \<longrightarrow> string_column_indices st ! k = j)"
proof -
  let ?m = "index_headers (split TAB contents) 0 Map.empty"
  let ?hs = "headers_of contents"
  from assms(3,4) have "name \<in> set ?hs" by auto
  then have m: "?m name = Some j"
  proof (rule header_position)
    fix i assume i: "?m name = Some i" "i < length ?hs" "?hs ! i = name"
      "\<forall>j'<length ?hs. i < j' \<longrightarrow> ?hs ! j' \<noteq> name"
    with assms(3,4,5) have "i = j"
      by (metis linorder_neqE_nat)
    with i(1) show ?thesis by simp
  qed
  from assms(1) show ?thesis
  proof (rule SetupColumns_Inr)
    fix contents'
    assume c: "files header_file = Some contents'"
      and f: "float_column_indices st =
           map (\<lambda>h. the (index_headers (split TAB contents') 0 Map.empty h))
             (binned_float_column config @ raw_float_column config)"
      and s: "string_column_indices st =
           map (\<lambda>h. the (index_headers (split TAB contents') 0 Map.empty h)) (string_column config)"
    from c assms(2) have [simp]: "contents' = contents" by simp
    from m show ?thesis
      unfolding f s by (auto simp del: map_append)
  qed
qed

theorem SetupColumns_last_occurrence_witness:
  "\<exists>st. SetupColumns [''header'' \<mapsto> twice_header] ''header'' twice_config (new_TSVDataStore 0)
           = Inr st \<and>
        headers_of twice_header = [''x'', ''y'', ''x''] \<and>
        float_column_indices st ! 0 = 2 \<and> string_column_indices st ! 0 = 2"
proof -
  from SetupColumns_twice obtain st where st:
    "SetupColumns [''header'' \<mapsto> twice_header] ''header'' twice_config (new_TSVDataStore 0) = Inr st"
    by (auto split: sum.splits)
  have 2: "[''header'' \<mapsto> twice_header] ''header'' = Some twice_header" by simp
  have 3: "2 < length (headers_of twice_header)" "headers_of twice_header ! 2 = ''x''"
    "\<forall>j'<length (headers_of twice_header). 2 < j' \<longrightarrow> headers_of twice_header ! j' \<noteq> ''x''"
    by (simp_all add: headers_of_twice)
  from SetupColumns_last_occurrence [OF st 2 3] st show ?thesis
    by (simp add: twice_config_def headers_of_twice)
qed

text \<open>
  C10. With no input file, a configuration that names no column twice and a store that
  \<^verbatim>\<open>SetupColumns\<close> has set up: every column of the store's lists is alive; there is a
  schedule on which \<^verbatim>\<open>LoadTSVs\<close> returns; on every schedule the process lives, no parse
  task has been submitted, no block taken and no \<^verbatim>\<open>Add\<close> call started; no schedule
  has more than three steps and two per column, and as long as \<^verbatim>\<open>LoadTSVs\<close> has not
  returned some thread can take a step, so that every execution ends with its return; when
  it has returned,
  \<^verbatim>\<open>Finalize\<close> has started and returned exactly once on every column of the store's
  lists, and every column has no rows.
\<close>

theorem empty_load:
  fixes w :: "'f world"
  assumes "SetupColumns (fs w) header_file config (new_TSVDataStore n) = Inr st"
    and "distinct (configured config)"
  shows "(\<forall>p\<in>set (columns_of st). objects st p \<noteq> None) \<and>
         (\<exists>sched s. run w [] sched (LoadTSVs w header_file [] config n) = Some s \<and>
                    pc s = Returned) \<and>
         (\<forall>sched s. run w [] sched (LoadTSVs w header_file [] config n) = Some s \<longrightarrow>
            \<not> is_dead (pc s) \<and>
            loads_submitted (trace s) = [] \<and> blocks_taken (trace s) = [] \<and>
            (\<forall>p. Add_started p (trace s) = []) \<and>
            length sched \<le> 2 * length (columns_of st) + 3 \<and>
            (pc s \<noteq> Returned \<longrightarrow> (\<exists>a s'. step w [] a s = Some s')) \<and>
            (pc s = Returned \<longrightarrow>
               (\<forall>p\<in>set (columns_of st).
                  Finalize_started p (trace s) = 1 \<and> Finalize_finished p (trace s) = 1 \<and>
                  float_rows p (trace s) = [] \<and> string_rows p (trace s) = [])))"
proof -
  let ?s0 = "LoadTSVs w header_file [] config n"
  note su = assms(1) and dn = assms(2)
  note dc = SetupColumns_distinct [OF su dn]
  note 0 = SetupColumns_live [OF su dn]
  have 1: "\<exists>sched s. run w [] sched ?s0 = Some s \<and> pc s = Returned"
    using empty_run [OF su] by blast
  {
    fix sched s assume run: "run w [] sched ?s0 = Some s"
    from LoadTSVs_run [OF su run dn] have I: "Inv w [] st s" .
    then have i: "inv w [] st s" and st: "inv_static w [] st s" and pool: "inv_pool w [] st s"
      and calls: "inv_calls w [] st s" and tk: "inv_taken [] s" and sub: "inv_submitted [] s"
      by (simp_all add: Inv_def inv_def)
    have alive: "\<not> is_dead (pc s)"
      by (rule LoadTSVs_alive [OF su _ run dn]) simp
    from sub have a: "loads_submitted (trace s) = []"
      by (auto simp: inv_submitted_def)
    from pool alive have ok: "pc_ok 0 (pc s)" by (simp add: inv_pool_def)
    from tk alive ok have b: "blocks_taken (trace s) = []"
      by (cases "pc s") (auto simp: inv_taken_def)
    have c: "Add_started p (trace s) = []" for p
    proof -
      have "concat (map (Add_slice p) (current_tasks w [] st (pc s))) = []"
        using ok Finalizes_no_slices [OF Finalize_tasks_columns(2), of p st, where 'a = 'f]
        by (cases "pc s") simp_all
      with inv_calls_unfold(1) [OF calls alive, of p] show ?thesis by simp
    qed
    have d: "\<exists>a s'. step w [] a s = Some s'" if "pc s \<noteq> Returned"
      using LoadTSVs_progress [OF su _ run dn] that by simp
    have f: "length sched \<le> 2 * length (columns_of st) + 3"
      using LoadTSVs_bounded [OF su run dn] by (simp add: max_steps_def)
    have e: "Finalize_started p (trace s) = 1 \<and> Finalize_finished p (trace s) = 1 \<and>
             float_rows p (trace s) = [] \<and> string_rows p (trace s) = []"
      if r: "pc s = Returned" and p: "p \<in> set (columns_of st)" for p
      using Returned_calls(2-4) [OF i r, of p] Finalize_once [OF dc p, where 'f = 'f]
      by (simp add: float_rows_def string_rows_def)
    from alive a b c d e f have
      "\<not> is_dead (pc s) \<and>
       loads_submitted (trace s) = [] \<and> blocks_taken (trace s) = [] \<and>
       (\<forall>p. Add_started p (trace s) = []) \<and>
       length sched \<le> 2 * length (columns_of st) + 3 \<and>
       (pc s \<noteq> Returned \<longrightarrow> (\<exists>a s'. step w [] a s = Some s')) \<and>
       (pc s = Returned \<longrightarrow>
          (\<forall>p\<in>set (columns_of st).
             Finalize_started p (trace s) = 1 \<and> Finalize_finished p (trace s) = 1 \<and>
             float_rows p (trace s) = [] \<and> string_rows p (trace s) = []))"
      by blast
  }
  with 0 1 show ?thesis by blast
qed

theorem empty_load_witness:
  "\<exists>s. run (example_world (\<lambda>cell. cell)) []
          [Main, Main,
           Start_task (Finalize StringColumn 2), End_task (Finalize StringColumn 2),
           Start_task (Finalize RawFloatColumn 1), Start_task (Finalize RawFloatColumn 0),
           End_task (Finalize RawFloatColumn 0), End_task (Finalize RawFloatColumn 1),
           Main]
          (LoadTSVs (example_world (\<lambda>cell. cell)) ''header'' [] example_config 0) = Some s \<and>
       pc s = Returned \<and> loads_submitted (trace s) = [] \<and> blocks_taken (trace s) = [] \<and>
       Finalize_started 0 (trace s) = 1 \<and> Finalize_finished 0 (trace s) = 1 \<and>
       Finalize_started 1 (trace s) = 1 \<and> Finalize_finished 1 (trace s) = 1 \<and>
       Finalize_started 2 (trace s) = 1 \<and> Finalize_finished 2 (trace s) = 1 \<and>
       float_rows 0 (trace s) = [] \<and> string_rows 2 (trace s) = []"
proof -
  let ?w = "example_world (\<lambda>cell. cell) :: string world"
  from example_setup [of "\<lambda>cell. cell" 0] obtain st where
    st: "SetupColumns (fs ?w) ''header'' example_config (new_TSVDataStore 0) = Inr st" by blast
  note ex = example_store [OF st]
  from ex have cols: "columns_of st = [0, 1, 2]" by (simp add: columns_of_def)
  from example_run_no_files [of "\<lambda>cell. cell"]
  obtain s where s: "run ?w []
          [Main, Main,
           Start_task (Finalize StringColumn 2), End_task (Finalize StringColumn 2),
           Start_task (Finalize RawFloatColumn 1), Start_task (Finalize RawFloatColumn 0),
           End_task (Finalize RawFloatColumn 0), End_task (Finalize RawFloatColumn 1),
           Main]
          (LoadTSVs ?w ''header'' [] example_config 0) = Some s" "pc s = Returned"
    by blast
  from empty_load [OF st example_distinct] s(1) have
    "loads_submitted (trace s) = [] \<and> blocks_taken (trace s) = [] \<and>
     (pc s = Returned \<longrightarrow>
        (\<forall>p\<in>set (columns_of st).
           Finalize_started p (trace s) = 1 \<and> Finalize_finished p (trace s) = 1 \<and>
           float_rows p (trace s) = [] \<and> string_rows p (trace s) = []))"
    by blast
  with s(2) cols have
    "loads_submitted (trace s) = [] \<and> blocks_taken (trace s) = [] \<and>
     Finalize_started 0 (trace s) = 1 \<and> Finalize_finished 0 (trace s) = 1 \<and>
     Finalize_started 1 (trace s) = 1 \<and> Finalize_finished 1 (trace s) = 1 \<and>
     Finalize_started 2 (trace s) = 1 \<and> Finalize_finished 2 (trace s) = 1 \<and>
     float_rows 0 (trace s) = [] \<and> string_rows 2 (trace s) = []"
    by simp
  with s show ?thesis by blast
qed

end
